theory Spec2Isabelle
  imports Main "HOL-Library.Multiset"
begin

section \<open>JavaScript strings\<close>

text \<open>
  A JavaScript string is modelled as a \<^typ>\<open>string\<close> whose characters are the code units
  \<open>0..255\<close> (the Latin-1 range). White space is what \<open>String.prototype.trim\<close> and the
  regular-expression class \<open>\s\<close> accept in that range; \<open>toLowerCase\<close> maps the ASCII and the
  Latin-1 capital letters.
\<close>

definition space_chars :: string where
  "space_chars = [CHR 0x09, CHR 0x0A, CHR 0x0B, CHR 0x0C, CHR 0x0D, CHR 0x20, CHR 0xA0]"

definition is_space :: "char \<Rightarrow> bool" where
  "is_space c = (c \<in> set space_chars)"

definition trim :: "string \<Rightarrow> string" where
  "trim s = rev (dropWhile is_space (rev (dropWhile is_space s)))"

definition upper_chars :: string where
  "upper_chars = ''ABCDEFGHIJKLMNOPQRSTUVWXYZ'' @
     [CHR 0xC0, CHR 0xC1, CHR 0xC2, CHR 0xC3, CHR 0xC4, CHR 0xC5, CHR 0xC6, CHR 0xC7, CHR 0xC8, CHR 0xC9, CHR 0xCA, CHR 0xCB,
      CHR 0xCC, CHR 0xCD, CHR 0xCE, CHR 0xCF, CHR 0xD0, CHR 0xD1, CHR 0xD2, CHR 0xD3, CHR 0xD4, CHR 0xD5, CHR 0xD6, CHR 0xD8,
      CHR 0xD9, CHR 0xDA, CHR 0xDB, CHR 0xDC, CHR 0xDD, CHR 0xDE]"

definition lower_chars :: string where
  "lower_chars = ''abcdefghijklmnopqrstuvwxyz'' @
     [CHR 0xE0, CHR 0xE1, CHR 0xE2, CHR 0xE3, CHR 0xE4, CHR 0xE5, CHR 0xE6, CHR 0xE7, CHR 0xE8, CHR 0xE9, CHR 0xEA, CHR 0xEB,
      CHR 0xEC, CHR 0xED, CHR 0xEE, CHR 0xEF, CHR 0xF0, CHR 0xF1, CHR 0xF2, CHR 0xF3, CHR 0xF4, CHR 0xF5, CHR 0xF6, CHR 0xF8,
      CHR 0xF9, CHR 0xFA, CHR 0xFB, CHR 0xFC, CHR 0xFD, CHR 0xFE]"

definition lower_char :: "char \<Rightarrow> char" where
  "lower_char c = (case map_of (zip upper_chars lower_chars) c of Some l \<Rightarrow> l | None \<Rightarrow> c)"

definition toLowerCase :: "string \<Rightarrow> string" where
  "toLowerCase s = map lower_char s"

definition is_digit :: "char \<Rightarrow> bool" where
  "is_digit c = (c \<in> set ''0123456789'')"

text \<open>The decimal rendering of a number inside a template literal.\<close>

definition digit :: "nat \<Rightarrow> char" where
  "digit d = ''0123456789'' ! d"

fun dec :: "nat \<Rightarrow> string" where
  "dec n = (if n < 10 then [digit n] else dec (n div 10) @ [digit (n mod 10)])"

declare dec.simps [simp del]

section \<open>Chapter catalog (server)\<close>

record descriptor =
  cid :: string
  part :: nat
  chapterNo :: nat
  textUrl :: string
  notesUrl :: "string option"
  title :: string

text \<open>\<open>PART_CHAPTER_COUNTS\<close>: a part that is not a key gives \<open>undefined\<close>, which bounds no loop.\<close>

definition PART_CHAPTER_COUNTS :: "nat \<Rightarrow> nat" where
  "PART_CHAPTER_COUNTS p =
     (if p = 1 then 43 else if p = 2 then 11 else if p = 3 then 8
      else if p = 4 then 1 else if p = 5 then 6 else 0)"

definition hasAnnotationPage :: "nat \<Rightarrow> nat \<Rightarrow> bool" where
  "hasAnnotationPage p c =
     (if p = 1 \<and> c \<ge> 1 \<and> c \<le> 43 then True
      else if p = 2 \<and> c \<ge> 1 \<and> c \<le> 11 then True
      else if p = 3 \<and> c \<ge> 1 \<and> c \<le> 2 then True
      else False)"

definition textId :: "nat \<Rightarrow> nat \<Rightarrow> string" where
  "textId p c = (if p = 4 then ''4'' else dec p @ dec c)"

definition mkChapter :: "nat \<Rightarrow> nat \<Rightarrow> descriptor" where
  "mkChapter p c =
     \<lparr> cid = ''p'' @ dec p @ ''c'' @ dec c,
       part = p,
       chapterNo = c,
       textUrl = ''https://www.ada.auckland.ac.nz/ada'' @ textId p c @ ''.htm'',
       notesUrl = (if hasAnnotationPage p c
                   then Some (''https://www.ada.auckland.ac.nz/ada'' @ textId p c @ ''ann.htm'')
                   else None),
       title = (if p = 4 then ''Part 4'' else ''Part '' @ dec p @ '', Chapter '' @ dec c) \<rparr>"

text \<open>The two nested loops: parts 1 to 5, chapters 1 to the part's count.\<close>

definition buildChapters :: "descriptor list" where
  "buildChapters =
     concat (map (\<lambda>p. map (mkChapter p) [1 ..< Suc (PART_CHAPTER_COUNTS p)]) [1 ..< 6])"


section \<open>More string operations\<close>

definition starts_with :: "string \<Rightarrow> string \<Rightarrow> bool" where
  "starts_with p s = (take (length p) s = p)"

text \<open>A literal pattern anchored at the start, under the \<open>i\<close> flag.\<close>

definition starts_with_ci :: "string \<Rightarrow> string \<Rightarrow> bool" where
  "starts_with_ci p s = (toLowerCase (take (length p) s) = p)"

text \<open>An unanchored \<open>RegExp.test\<close>: the pattern is tried at every position, the end included.\<close>

fun search :: "(string \<Rightarrow> bool) \<Rightarrow> string \<Rightarrow> bool" where
  "search m [] = m []"
| "search m (c # cs) = (m (c # cs) \<or> search m cs)"

text \<open>\<open>indexOf\<close> of a character; \<open>None\<close> is the result \<open>-1\<close>.\<close>

fun indexOf :: "string \<Rightarrow> char \<Rightarrow> nat option" where
  "indexOf [] c = None"
| "indexOf (x # xs) c = (if x = c then Some 0 else map_option Suc (indexOf xs c))"

text \<open>\<open>split\<close> at a character: never empty, so \<open>pop\<close> returns its last element.\<close>

fun split_on :: "char \<Rightarrow> string \<Rightarrow> string list" where
  "split_on c [] = [[]]"
| "split_on c (x # xs) =
     (if x = c then [] # split_on c xs
      else (case split_on c xs of [] \<Rightarrow> [[x]] | w # ws \<Rightarrow> (x # w) # ws))"

definition pop :: "string list \<Rightarrow> string" where
  "pop xs = (if xs = [] then [] else last xs)"

text \<open>\<open>/^https?:\/\//i\<close>\<close>

definition is_http :: "string \<Rightarrow> bool" where
  "is_http s = (starts_with_ci ''http://'' s \<or> starts_with_ci ''https://'' s)"

section \<open>Link classification (client)\<close>

text \<open>\<open>/ada\d+ann\.htm/i\<close>, tried at one position.\<close>

definition ada_ann_here :: "string \<Rightarrow> bool" where
  "ada_ann_here s =
     (starts_with_ci ''ada'' s \<and> takeWhile is_digit (drop 3 s) \<noteq> [] \<and>
      starts_with_ci ''ann.htm'' (dropWhile is_digit (drop 3 s)))"

definition isAdaNoteHref :: "string \<Rightarrow> bool" where
  "isAdaNoteHref href =
     (if href = [] then True
      else let h = trim href in
        if h = [] \<or> h = ''#'' then True
        else if starts_with ''#'' h then True
        else if search ada_ann_here h then True
        else False)"

text \<open>\<open>/\.htm(\?|#|$)/i\<close>, tried at one position.\<close>

definition htm_end_here :: "string \<Rightarrow> bool" where
  "htm_end_here s =
     (starts_with_ci ''.htm'' s \<and>
      (case drop 4 s of [] \<Rightarrow> True | c # _ \<Rightarrow> c = CHR ''?'' \<or> c = CHR ''#''))"

definition isRelativeAdaDoc :: "string \<Rightarrow> bool" where
  "isRelativeAdaDoc href =
     (if href = [] then False
      else if is_http href
        then (starts_with_ci ''http://www.ada.auckland.ac.nz'' href \<or>
              starts_with_ci ''https://www.ada.auckland.ac.nz'' href)
      else search htm_end_here href)"

definition ADA_BASE :: string where
  "ADA_BASE = ''https://www.ada.auckland.ac.nz/''"

definition makeAdaAbsolute :: "string \<Rightarrow> string" where
  "makeAdaAbsolute href =
     (if href = [] then ADA_BASE
      else if is_http href then href
      else ADA_BASE @ dropWhile (\<lambda>c. c = CHR ''/'') href)"

text \<open>
  \<open>new URL(s).pathname\<close> belongs to the platform: it is the parameter \<open>url_path\<close>, which
  gives the path of the URL, or \<open>None\<close> where the constructor throws.
\<close>

definition normalizeAdaHref :: "(string \<Rightarrow> string option) \<Rightarrow> string \<Rightarrow> string option" where
  "normalizeAdaHref url_path href =
     (if href = [] then None
      else let s = trim href in
        if s = [] then None
        else let hashIdx = indexOf s (CHR ''#'');
                 qIdx = indexOf s (CHR ''?'');
                 cut0 = length s;
                 cut1 = (case hashIdx of Some i \<Rightarrow> min cut0 i | None \<Rightarrow> cut0);
                 cut = (case qIdx of Some i \<Rightarrow> min cut1 i | None \<Rightarrow> cut1);
                 s1 = take cut s
             in if s1 = [] then None
                else let s2 = (if is_http s1
                               then (case url_path s1 of
                                       Some p \<Rightarrow> pop (split_on (CHR ''/'') p)
                                     | None \<Rightarrow> s1)
                               else pop (split_on (CHR ''/'') s1))
                     in if toLowerCase s2 = [] then None else Some (toLowerCase s2))"

text \<open>
  The index is a plain object used as a dictionary; the members an object inherits from its
  prototype are outside this model, which holds the entries the loop stores.
\<close>

definition href_entry ::
  "(string \<Rightarrow> string option) \<Rightarrow> (string \<rightharpoonup> string) \<Rightarrow> descriptor \<Rightarrow> (string \<rightharpoonup> string)" where
  "href_entry url_path m ch =
     (if textUrl ch = [] then m
      else (case url_path (textUrl ch) of
              None \<Rightarrow> m
            | Some p \<Rightarrow>
                let file = toLowerCase (pop (split_on (CHR ''/'') p))
                in if file \<noteq> [] then m(file \<mapsto> cid ch) else m))"

definition buildChapterHrefMap ::
  "(string \<Rightarrow> string option) \<Rightarrow> descriptor list \<Rightarrow> (string \<rightharpoonup> string)" where
  "buildChapterHrefMap url_path chapters = foldl (href_entry url_path) Map.empty chapters"

definition lookupChapterIdForHref ::
  "(string \<Rightarrow> string option) \<Rightarrow> (string \<rightharpoonup> string) \<Rightarrow> string \<Rightarrow> string option" where
  "lookupChapterIdForHref url_path chapterHrefMap href =
     (case normalizeAdaHref url_path href of
        None \<Rightarrow> None
      | Some key \<Rightarrow>
          (case chapterHrefMap key of
             None \<Rightarrow> None
           | Some i \<Rightarrow> if i = [] then None else Some i))"

text \<open>The words of the specification: query and fragment stripped, final segment, lower case.\<close>

definition strip_query_fragment :: "string \<Rightarrow> string" where
  "strip_query_fragment s = takeWhile (\<lambda>c. c \<noteq> CHR ''#'' \<and> c \<noteq> CHR ''?'') s"

definition final_segment :: "string \<Rightarrow> string" where
  "final_segment s = rev (takeWhile (\<lambda>c. c \<noteq> CHR ''/'') (rev s))"

definition non_empty :: "string \<Rightarrow> string option" where
  "non_empty s = (if s = [] then None else Some s)"

text \<open>The file name of a chapter's text page on the source site.\<close>

definition chapter_file :: "descriptor \<Rightarrow> string" where
  "chapter_file d = ''ada'' @ textId (part d) (chapterNo d) @ ''.htm''"

text \<open>The key a descriptor is stored under: the lower-cased final segment of its URL's path.\<close>

definition chapter_key :: "(string \<Rightarrow> string option) \<Rightarrow> descriptor \<Rightarrow> string" where
  "chapter_key url_path d =
     (case url_path (textUrl d) of Some p \<Rightarrow> toLowerCase (final_segment p) | None \<Rightarrow> [])"

text \<open>The characters of the catalog's URLs.\<close>

definition url_chars :: string where
  "url_chars = ''https://www.ada.auckland.ac.nz/0123456789m''"

text \<open>The four dispositions of \<open>wireTextLinks\<close>, first match first.\<close>

datatype disposition = NoteLink | ChapterNav string | AdaDoc string | Generic

definition classify ::
  "(string \<Rightarrow> string option) \<Rightarrow> (string \<rightharpoonup> string) \<Rightarrow> string \<Rightarrow> disposition" where
  "classify url_path chapterHrefMap rawHref =
     (if isAdaNoteHref rawHref then NoteLink
      else (case lookupChapterIdForHref url_path chapterHrefMap rawHref of
              Some chapterId \<Rightarrow> ChapterNav chapterId
            | None \<Rightarrow>
                if isRelativeAdaDoc rawHref then AdaDoc (makeAdaAbsolute rawHref)
                else Generic))"

text \<open>
  A reference parser for plain \<open>http\<close> and \<open>https\<close> URLs (scheme, host, path, query, fragment,
  nothing to decode or to resolve), to instantiate \<open>url_path\<close>.
\<close>

definition basic_url_path :: "string \<Rightarrow> string option" where
  "basic_url_path s =
     (if \<not> is_http s then None
      else let after = drop 2 (dropWhile (\<lambda>c. c \<noteq> CHR ''/'') s);
               host = takeWhile (\<lambda>c. c \<noteq> CHR ''/'' \<and> c \<noteq> CHR ''?'' \<and> c \<noteq> CHR ''#'') after;
               rest = dropWhile (\<lambda>c. c \<noteq> CHR ''/'' \<and> c \<noteq> CHR ''?'' \<and> c \<noteq> CHR ''#'') after;
               path = takeWhile (\<lambda>c. c \<noteq> CHR ''?'' \<and> c \<noteq> CHR ''#'') rest
           in if host = [] then None else Some (if path = [] then ''/'' else path))"

section \<open>Auxiliary reference pages (server)\<close>

text \<open>\<open>/^[0-9A-Za-z_-]+\.htm$/i\<close>\<close>

definition is_word :: "char \<Rightarrow> bool" where
  "is_word c =
     (c \<in> set ''0123456789ABCDEFGHIJKLMNOPQRSTUVWXYZabcdefghijklmnopqrstuvwxyz_-'')"

definition safe_ref_file :: "string \<Rightarrow> bool" where
  "safe_ref_file file =
     (takeWhile is_word file \<noteq> [] \<and> toLowerCase (dropWhile is_word file) = ''.htm'')"

text \<open>
  What \<open>fetch\<close> gives: a rejected promise, or a response with its \<open>ok\<close> flag and its body.
\<close>

datatype fetch_result = Rejected | Response bool string

text \<open>
  The handler of \<open>/api/ref/:file\<close>, as the HTTP status it answers with and the list of the
  URLs it has fetched. The parameter \<open>render\<close> is the rest of the \<open>try\<close> block (parsing and
  the transforms): \<open>None\<close> where it throws.
\<close>

definition api_ref ::
  "(string \<Rightarrow> fetch_result) \<Rightarrow> (string \<Rightarrow> string \<Rightarrow> 'a option) \<Rightarrow> string \<Rightarrow> nat \<times> string list" where
  "api_ref fetch render file =
     (if \<not> safe_ref_file file then (400, [])
      else let url = ''https://www.ada.auckland.ac.nz/'' @ file
           in (case fetch url of
                 Rejected \<Rightarrow> (500, [url])
               | Response ok html \<Rightarrow>
                   if \<not> ok then (502, [url])
                   else (case render url html of None \<Rightarrow> (500, [url]) | Some _ \<Rightarrow> (200, [url]))))"


section \<open>Document trees\<close>

text \<open>
  A document is a tree of elements and text nodes. An element carries its identity (the
  object a JavaScript reference points to), its tag name as the parser gives it (lower case),
  its attributes in order, and its child nodes. The DOM primitives are modelled on it:
  \<open>textContent\<close>, \<open>querySelectorAll\<close> with a type selector (the descendants in document
  order, the element itself excluded), \<open>children\<close> (the element children).
\<close>

datatype node = Text string | Elem nat string "(string \<times> string) list" "node list"

fun is_elem :: "node \<Rightarrow> bool" where
  "is_elem (Elem i t a cs) = True"
| "is_elem (Text s) = False"

fun ident :: "node \<Rightarrow> nat" where
  "ident (Elem i t a cs) = i"
| "ident (Text s) = 0"

fun tag :: "node \<Rightarrow> string" where
  "tag (Elem i t a cs) = t"
| "tag (Text s) = []"

fun attrs :: "node \<Rightarrow> (string \<times> string) list" where
  "attrs (Elem i t a cs) = a"
| "attrs (Text s) = []"

fun childNodes :: "node \<Rightarrow> node list" where
  "childNodes (Elem i t a cs) = cs"
| "childNodes (Text s) = []"

text \<open>The elements of a tree in document order, the root first.\<close>

fun elems :: "node \<Rightarrow> node list" where
  "elems (Text s) = []"
| "elems (Elem i t a cs) = Elem i t a cs # concat (map elems cs)"

definition descendants :: "node \<Rightarrow> node list" where
  "descendants n = concat (map elems (childNodes n))"

definition querySelectorAll :: "string \<Rightarrow> node \<Rightarrow> node list" where
  "querySelectorAll tg n = filter (\<lambda>e. tag e = tg) (descendants n)"

fun textContent :: "node \<Rightarrow> string" where
  "textContent (Text s) = s"
| "textContent (Elem i t a cs) = concat (map textContent cs)"

definition getAttribute :: "string \<Rightarrow> node \<Rightarrow> string option" where
  "getAttribute k n = map_of (attrs n) k"

definition hasAttribute :: "string \<Rightarrow> node \<Rightarrow> bool" where
  "hasAttribute k n = (k \<in> set (map fst (attrs n)))"

section \<open>Cleaner, line breaks, images (server)\<close>

text \<open>
  The transforms take the root they are given; the guard \<open>if (!root) return\<close> is for a root
  that is absent, where there is no tree. \<open>forEach\<close> over \<open>querySelectorAll\<close> visits the
  descendants of the root, never the root itself.
\<close>

text \<open>\<open>el.remove()\<close> for every descendant that satisfies \<open>p\<close>.\<close>

fun remove_where :: "(node \<Rightarrow> bool) \<Rightarrow> node \<Rightarrow> node" where
  "remove_where p (Text s) = Text s"
| "remove_where p (Elem i t a cs) =
     Elem i t a (map (remove_where p) (filter (\<lambda>c. \<not> (is_elem c \<and> p c)) cs))"

text \<open>A change of the attributes of every descendant element.\<close>

fun map_attrs :: "(node \<Rightarrow> (string \<times> string) list) \<Rightarrow> node \<Rightarrow> node" where
  "map_attrs f (Text s) = Text s"
| "map_attrs f (Elem i t a cs) = Elem i t (f (Elem i t a cs)) (map (map_attrs f) cs)"

definition on_descendants :: "(node \<Rightarrow> (string \<times> string) list) \<Rightarrow> node \<Rightarrow> node" where
  "on_descendants f n =
     (case n of Text s \<Rightarrow> Text s | Elem i t a cs \<Rightarrow> Elem i t a (map (map_attrs f) cs))"

definition removeAttribute :: "string \<Rightarrow> (string \<times> string) list \<Rightarrow> (string \<times> string) list" where
  "removeAttribute k a = filter (\<lambda>kv. fst kv \<noteq> k) a"

definition setAttribute ::
  "string \<Rightarrow> string \<Rightarrow> (string \<times> string) list \<Rightarrow> (string \<times> string) list" where
  "setAttribute k v a =
     (if k \<in> set (map fst a) then map (\<lambda>kv. if fst kv = k then (k, v) else kv) a
      else a @ [(k, v)])"

definition stripLegacyStyling :: "node \<Rightarrow> node" where
  "stripLegacyStyling root =
     on_descendants (\<lambda>el. removeAttribute ''style'' (attrs el))
       (remove_where (\<lambda>el. tag el = ''style'' \<or> tag el = ''link'') root)"

definition stripLineBreaks :: "node \<Rightarrow> node" where
  "stripLineBreaks root = remove_where (\<lambda>el. tag el = ''br'') root"

text \<open>
  Two parts of \<open>fixImages\<close> belong to the platform and are parameters: \<open>resolve src base\<close> is
  \<open>new URL(src, base).toString()\<close>, or \<open>None\<close> where it throws; \<open>restyle old\<close> is the text of
  the \<open>style\<close> attribute after the four assignments to \<open>img.style\<close>, from the attribute's text
  before them.
\<close>

definition fixImage ::
  "(string \<Rightarrow> string \<Rightarrow> string option) \<Rightarrow> (string option \<Rightarrow> string) \<Rightarrow> string \<Rightarrow> node
     \<Rightarrow> (string \<times> string) list" where
  "fixImage resolve restyle baseUrl img =
     (if \<not> (tag img = ''img'' \<and> hasAttribute ''src'' img) then attrs img
      else (case getAttribute ''src'' img of
              None \<Rightarrow> attrs img
            | Some src \<Rightarrow>
                if src = [] then attrs img
                else let a1 = (if \<not> is_http src
                               then (case resolve src baseUrl of
                                       Some u \<Rightarrow> setAttribute ''src'' u (attrs img)
                                     | None \<Rightarrow> attrs img)
                               else attrs img);
                         a2 = removeAttribute ''height'' (removeAttribute ''width'' a1)
                     in setAttribute ''style'' (restyle (map_of a2 ''style'')) a2))"

definition fixImages ::
  "(string \<Rightarrow> string \<Rightarrow> string option) \<Rightarrow> (string option \<Rightarrow> string) \<Rightarrow> node \<Rightarrow> string
     \<Rightarrow> node" where
  "fixImages resolve restyle root baseUrl = on_descendants (fixImage resolve restyle baseUrl) root"

section \<open>Margin-table flattener (server)\<close>

text \<open>
  \<open>flattenMarginTables\<close> mutates the document while it holds references to nodes it found
  earlier, so the model keeps a store: the forest of all trees that exist, the document first and
  after it every detached tree (created elements and fragments, replaced tables), and the next
  unused identity. A node is reached through its identity, wherever it is by then.
\<close>

record dom =
  roots :: "node list"
  fresh :: nat

definition all_elems :: "node list \<Rightarrow> node list" where
  "all_elems f = concat (map elems f)"

definition find_node :: "nat \<Rightarrow> node list \<Rightarrow> node option" where
  "find_node i f = find (\<lambda>e. ident e = i) (all_elems f)"

text \<open>A change of the child list of the element \<open>i\<close>.\<close>

fun upd :: "nat \<Rightarrow> (node list \<Rightarrow> node list) \<Rightarrow> node \<Rightarrow> node" where
  "upd i g (Text s) = Text s"
| "upd i g (Elem j t a cs) =
     (if j = i then Elem j t a (g cs) else Elem j t a (map (upd i g) cs))"

text \<open>The child \<open>i\<close> of its parent gives its place to \<open>w\<close>.\<close>

fun repl :: "nat \<Rightarrow> node \<Rightarrow> node \<Rightarrow> node" where
  "repl i w (Text s) = Text s"
| "repl i w (Elem j t a cs) =
     Elem j t a (map (\<lambda>c. if is_elem c \<and> ident c = i then w else repl i w c) cs)"

text \<open>\<open>createElement\<close>: a new element without parent.\<close>

definition createElement :: "string \<Rightarrow> dom \<Rightarrow> nat \<times> dom" where
  "createElement tg st =
     (fresh st, st\<lparr> roots := roots st @ [Elem (fresh st) tg [] []], fresh := Suc (fresh st) \<rparr>)"

text \<open>A fragment is a parentless node of its own kind, here an element no selector names.\<close>

definition createDocumentFragment :: "dom \<Rightarrow> nat \<times> dom" where
  "createDocumentFragment st = createElement ''#document-fragment'' st"

text \<open>
  \<open>while (src.firstChild) dst.appendChild(src.firstChild)\<close>, and \<open>dst.appendChild(src)\<close> for
  a fragment \<open>src\<close>: the children of \<open>src\<close> leave it and become, in their order, the last
  children of \<open>dst\<close>.
\<close>

definition move_children :: "nat \<Rightarrow> nat \<Rightarrow> dom \<Rightarrow> dom" where
  "move_children src dst st =
     (case find_node src (roots st) of
        None \<Rightarrow> st
      | Some s \<Rightarrow>
          st\<lparr> roots := map (upd dst (\<lambda>cs. cs @ childNodes s))
                          (map (upd src (\<lambda>cs. [])) (roots st)) \<rparr>)"

text \<open>\<open>parent.appendChild(doc.createElement(tg))\<close>\<close>

definition appendNew :: "string \<Rightarrow> nat \<Rightarrow> dom \<Rightarrow> dom" where
  "appendNew tg parent st =
     st\<lparr> roots := map (upd parent (\<lambda>cs. cs @ [Elem (fresh st) tg [] []])) (roots st),
         fresh := Suc (fresh st) \<rparr>"

text \<open>\<open>parent.appendChild(doc.createTextNode(s))\<close>\<close>

definition appendText :: "string \<Rightarrow> nat \<Rightarrow> dom \<Rightarrow> dom" where
  "appendText s parent st = st\<lparr> roots := map (upd parent (\<lambda>cs. cs @ [Text s])) (roots st) \<rparr>"

text \<open>
  \<open>old.replaceWith(new)\<close>, for a parentless \<open>new\<close>: nothing happens where \<open>old\<close> has no parent;
  otherwise \<open>new\<close> takes the place of \<open>old\<close>, which stays behind as a detached tree.
\<close>

definition replaceWith :: "nat \<Rightarrow> nat \<Rightarrow> dom \<Rightarrow> dom" where
  "replaceWith old new st =
     (case find_node old (roots st) of
        None \<Rightarrow> st
      | Some t \<Rightarrow>
          (case find_node new (roots st) of
             None \<Rightarrow> st
           | Some w \<Rightarrow>
               if old \<in> set (map ident (filter is_elem (roots st))) then st
               else st\<lparr> roots := map (repl old w)
                                    (filter (\<lambda>r. \<not> (is_elem r \<and> ident r = new)) (roots st)) @
                                  [t] \<rparr>))"

text \<open>The test of one row in \<open>allTwoCols\<close>; \<open>tr.children\<close> are the element children.\<close>

definition twoCols :: "node \<Rightarrow> bool" where
  "twoCols tr =
     (let cells = filter is_elem (childNodes tr)
      in length cells = 2 \<and> toLowerCase (tag (cells ! 0)) = ''td'' \<and>
         toLowerCase (tag (cells ! 1)) = ''td'')"

text \<open>The body of \<open>trs.forEach((tr, idx) => ...)\<close> for the wrapper \<open>w\<close>.\<close>

definition flattenRow :: "nat \<Rightarrow> dom \<Rightarrow> nat \<times> nat \<Rightarrow> dom" where
  "flattenRow w st ir =
     (case find_node (snd ir) (roots st) of
        None \<Rightarrow> st
      | Some tr \<Rightarrow>
          let cells = querySelectorAll ''td'' tr
          in if length cells < 2 then st
             else let marginCell = cells ! 0;
                      contentCell = cells ! 1;
                      hasMarker = (trim (textContent marginCell) \<noteq> []);
                      (markerFrag, st1) = createDocumentFragment st;
                      st2 = move_children (ident marginCell) markerFrag st1;
                      (contentFrag, st3) = createDocumentFragment st2;
                      st4 = move_children (ident contentCell) contentFrag st3
                  in if fst ir = 0
                     then (let st5 = (if hasMarker
                                      then appendNew ''br'' w (move_children markerFrag w st4)
                                      else st4)
                           in move_children contentFrag w st5)
                     else if hasMarker
                     then move_children contentFrag w
                            (appendNew ''br'' w
                               (move_children markerFrag w (appendNew ''br'' w st4)))
                     else move_children contentFrag w (appendText '' '' w st4))"

text \<open>The body of \<open>tables.forEach(table => ...)\<close>.\<close>

definition flattenTable :: "dom \<Rightarrow> nat \<Rightarrow> dom" where
  "flattenTable st t =
     (case find_node t (roots st) of
        None \<Rightarrow> st
      | Some table \<Rightarrow>
          let trs = querySelectorAll ''tr'' table
          in if trs = [] then st
             else if \<not> list_all twoCols trs then st
             else let (wrapper, st1) = createElement ''p'' st;
                      st2 = foldl (flattenRow wrapper) st1 (enumerate 0 (map ident trs))
                  in replaceWith t wrapper st2)"

definition fresh_id :: "node \<Rightarrow> nat" where
  "fresh_id root = Suc (foldr max (map ident (elems root)) 0)"

definition flattenMarginTables :: "node \<Rightarrow> node" where
  "flattenMarginTables root =
     (let tables = map ident (querySelectorAll ''table'' root);
          st = foldl flattenTable \<lparr> roots = [root], fresh = fresh_id root \<rparr> tables
      in (case roots st of [] \<Rightarrow> root | r # rs \<Rightarrow> r))"

section \<open>Chapter pipeline (server)\<close>

text \<open>
  The fragment sent is \<open>root.innerHTML\<close>, the markup the serializer of the platform writes
  for the child nodes of the root. The markup is kept as a tree: its texts and its elements,
  each with its tag, its attributes and what is written inside it. An element \<open>template\<close>
  has no child nodes in the document: what the page has inside it is its template contents,
  which no selector reaches from the document and which the serializer writes in the place of
  child nodes. The parameter \<open>content\<close> gives the template contents of a template element, as
  markup; \<open>MContents\<close> marks in the markup what was written from template contents.
\<close>

datatype markup =
  MText string | MElem string "(string \<times> string) list" "markup list" | MContents "markup list"

fun serialize :: "(nat \<Rightarrow> markup list) \<Rightarrow> node \<Rightarrow> markup" where
  "serialize content (Text s) = MText s"
| "serialize content (Elem i t a cs) =
     MElem t a (if t = ''template'' then [MContents (content i)]
                else map (serialize content) cs)"

definition innerHTML :: "(nat \<Rightarrow> markup list) \<Rightarrow> node \<Rightarrow> markup list" where
  "innerHTML content n =
     (case serialize content n of MElem t a ms \<Rightarrow> ms | MText s \<Rightarrow> [] | MContents ms \<Rightarrow> [])"

text \<open>
  The transforms of \<open>/api/chapter/:id\<close> on a located root, in their order, and the fragment
  sent.
\<close>

definition normalize_root ::
  "(string \<Rightarrow> string \<Rightarrow> string option) \<Rightarrow> (string option \<Rightarrow> string) \<Rightarrow> (nat \<Rightarrow> markup list)
     \<Rightarrow> node \<Rightarrow> string \<Rightarrow> markup list" where
  "normalize_root resolve restyle content root url =
     innerHTML content (fixImages resolve restyle
       (flattenMarginTables (stripLineBreaks (stripLegacyStyling root))) url)"

text \<open>
  The elements a markup writes, each as its tag and its attributes: all of them, and those
  outside template contents.
\<close>

fun written :: "markup \<Rightarrow> (string \<times> (string \<times> string) list) list" where
  "written (MText s) = []"
| "written (MElem t a ms) = (t, a) # concat (map written ms)"
| "written (MContents ms) = concat (map written ms)"

fun outside_templates :: "markup \<Rightarrow> (string \<times> (string \<times> string) list) list" where
  "outside_templates (MText s) = []"
| "outside_templates (MElem t a ms) = (t, a) # concat (map outside_templates ms)"
| "outside_templates (MContents ms) = []"

text \<open>
  The \<open>src\<close> attribute \<open>fixImages\<close> leaves on an image whose \<open>src\<close> was \<open>src\<close>.
\<close>

definition absolute_src :: "(string \<Rightarrow> string \<Rightarrow> string option) \<Rightarrow> string \<Rightarrow> string \<Rightarrow> string" where
  "absolute_src resolve baseUrl src =
     (if \<not> is_http src
      then (case resolve src baseUrl of Some u \<Rightarrow> u | None \<Rightarrow> src)
      else src)"

text \<open>A property of the tag and the attributes, of every element of a list of trees.\<close>

definition every_elem :: "(string \<Rightarrow> (string \<times> string) list \<Rightarrow> bool) \<Rightarrow> node list \<Rightarrow> bool" where
  "every_elem q ns = list_all (\<lambda>e. q (tag e) (attrs e)) (all_elems ns)"

text \<open>
  The store holds the document \<open>k\<close> first, and \<open>q\<close> holds of every element but the document
  root.
\<close>

definition store_ok :: "(string \<Rightarrow> (string \<times> string) list \<Rightarrow> bool) \<Rightarrow> nat \<Rightarrow> dom \<Rightarrow> bool" where
  "store_ok q k st =
     (roots st \<noteq> [] \<and> is_elem (hd (roots st)) \<and> ident (hd (roots st)) = k \<and> k < fresh st \<and>
      every_elem q (childNodes (hd (roots st))) \<and> every_elem q (tl (roots st)))"

text \<open>No \<open>style\<close> or \<open>link\<close> element, no \<open>style\<close> attribute.\<close>

definition unstyled :: "string \<Rightarrow> (string \<times> string) list \<Rightarrow> bool" where
  "unstyled t a = (t \<noteq> ''style'' \<and> t \<noteq> ''link'' \<and> ''style'' \<notin> set (map fst a))"

text \<open>The identities of the elements of a tree, of a forest.\<close>

definition ids :: "node \<Rightarrow> nat list" where
  "ids n = map ident (elems n)"

definition ids_f :: "node list \<Rightarrow> nat list" where
  "ids_f f = map ident (all_elems f)"

text \<open>
  A store is well formed when no identity occurs twice in it and every identity in it is below
  the next unused one.
\<close>

definition store_inv :: "dom \<Rightarrow> bool" where
  "store_inv st = (distinct (ids_f (roots st)) \<and> (\<forall>i\<in>set (ids_f (roots st)). i < fresh st))"

text \<open>
  What \<open>flattenRow\<close> does once the row's two cells are known: the moves into the two
  fragments, then the appends to the wrapper.
\<close>

definition row_moves :: "nat \<Rightarrow> nat \<Rightarrow> nat \<Rightarrow> nat \<Rightarrow> bool \<Rightarrow> dom \<Rightarrow> dom" where
  "row_moves w idx m c hasMarker st =
     (let markerFrag = fresh st;
          contentFrag = Suc (fresh st);
          st4 = move_children c contentFrag
                  (snd (createDocumentFragment
                     (move_children m markerFrag (snd (createDocumentFragment st)))))
      in if idx = 0
         then (if hasMarker
               then move_children contentFrag w
                      (appendNew ''br'' w (move_children markerFrag w st4))
               else move_children contentFrag w st4)
         else if hasMarker
         then move_children contentFrag w
                (appendNew ''br'' w (move_children markerFrag w (appendNew ''br'' w st4)))
         else move_children contentFrag w (appendText '' '' w st4))"

text \<open>An element is a root of the store: it has no parent.\<close>

definition is_root :: "nat \<Rightarrow> dom \<Rightarrow> bool" where
  "is_root i st = (\<exists>r\<in>set (roots st). is_elem r \<and> ident r = i)"

text \<open>The test of \<open>allTwoCols\<close> on a table, with the guard before it: a margin-layout table.\<close>

definition margin_table :: "node \<Rightarrow> bool" where
  "margin_table T =
     (querySelectorAll ''tr'' T \<noteq> [] \<and> list_all twoCols (querySelectorAll ''tr'' T))"

section \<open>Specification of the flattener\<close>

text \<open>
  The element children of a row are its cells. A row is plain when the cells the row loop
  selects (\<open>tr.querySelectorAll('td')\<close>) are its element children and no row lies below it.
\<close>

definition cells :: "node \<Rightarrow> node list" where
  "cells tr = filter is_elem (childNodes tr)"

definition plain_row :: "node \<Rightarrow> bool" where
  "plain_row tr = (querySelectorAll ''td'' tr = cells tr \<and> querySelectorAll ''tr'' tr = [])"

definition hasMarker :: "node \<Rightarrow> bool" where
  "hasMarker tr = (trim (textContent (cells tr ! 0)) \<noteq> [])"

text \<open>
  What a row adds to the flowing block, from the contents of its marker cell and of its
  content cell: \<open>b1\<close> and \<open>b2\<close> are the identities of the line breaks. The number of line
  breaks a row creates.
\<close>

definition breaks :: "nat \<Rightarrow> bool \<Rightarrow> nat" where
  "breaks idx h = (if h then (if idx = 0 then 1 else 2) else 0)"

definition block ::
  "nat \<Rightarrow> bool \<Rightarrow> nat \<Rightarrow> nat \<Rightarrow> node list \<Rightarrow> node list \<Rightarrow> node list" where
  "block idx h b1 b2 marker content =
     (if idx = 0 then (if h then marker @ [Elem b1 ''br'' [] []] @ content else content)
      else if h then [Elem b1 ''br'' [] []] @ marker @ [Elem b2 ''br'' [] []] @ content
      else [Text '' ''] @ content)"

text \<open>
  The contents of the flowing block for the rows \<open>rs\<close>, each with its index, where \<open>b\<close> is
  the next unused identity: a row takes two identities for its fragments, then those of its line
  breaks.
\<close>

fun emit :: "nat \<Rightarrow> (nat \<times> node) list \<Rightarrow> node list" where
  "emit b [] = []"
| "emit b (ir # rs) =
     block (fst ir) (hasMarker (snd ir)) (b + 2) (b + 3)
       (childNodes (cells (snd ir) ! 0)) (childNodes (cells (snd ir) ! 1)) @
     emit (b + 2 + breaks (fst ir) (hasMarker (snd ir))) rs"

text \<open>
  The flattener as a function of the tree. A margin table becomes the flowing block of its rows;
  every other node stays, with its children flattened. The new elements are given the one
  identity \<open>F\<close>: the specification does not say which identities the code gives them.
\<close>

definition row_block :: "nat \<Rightarrow> nat \<times> node \<Rightarrow> node list" where
  "row_block F ir =
     block (fst ir) (hasMarker (snd ir)) F F
       (childNodes (cells (snd ir) ! 0)) (childNodes (cells (snd ir) ! 1))"

definition flow_block :: "nat \<Rightarrow> node \<Rightarrow> node" where
  "flow_block F T =
     Elem F ''p'' [] (concat (map (row_block F) (enumerate 0 (querySelectorAll ''tr'' T))))"

fun flat :: "nat \<Rightarrow> node \<Rightarrow> node" where
  "flat F (Text s) = Text s"
| "flat F (Elem i t a cs) =
     (if t = ''table'' \<and> margin_table (Elem i t a cs) then flow_block F (Elem i t a cs)
      else Elem i t a (map (flat F) cs))"

definition flatten_spec :: "nat \<Rightarrow> node \<Rightarrow> node" where
  "flatten_spec F root =
     (case root of Text s \<Rightarrow> Text s | Elem i t a cs \<Rightarrow> Elem i t a (map (flat F) cs))"

text \<open>A tree with every identity from \<open>F\<close> on read as \<open>F\<close>.\<close>

fun mask :: "nat \<Rightarrow> node \<Rightarrow> node" where
  "mask F (Text s) = Text s"
| "mask F (Elem i t a cs) = Elem (min i F) t a (map (mask F) cs)"

section \<open>Vocabulary of the flattener proofs\<close>

text \<open>A tree with the elements \<open>S\<close> emptied of their children.\<close>

fun clr :: "nat set \<Rightarrow> node \<Rightarrow> node" where
  "clr S (Text s) = Text s"
| "clr S (Elem j t a cs) = (if j \<in> S then Elem j t a [] else Elem j t a (map (clr S) cs))"

text \<open>A tree with \<open>y\<close> in the place of the element \<open>i\<close>.\<close>

fun put :: "nat \<Rightarrow> node \<Rightarrow> node \<Rightarrow> node" where
  "put i y (Text s) = Text s"
| "put i y (Elem j t a cs) = (if j = i then y else Elem j t a (map (put i y) cs))"

text \<open>The identities of the cells of some rows; of the tables of a tree, in document order.\<close>

definition cell_ids :: "node list \<Rightarrow> nat set" where
  "cell_ids rs = (\<Union>r\<in>set rs. ident ` set (cells r))"

definition tabs :: "node \<Rightarrow> nat list" where
  "tabs x = map ident (filter (\<lambda>e. tag e = ''table'') (elems x))"

text \<open>The document is the first tree of the store.\<close>

definition doc_is :: "node \<Rightarrow> dom \<Rightarrow> bool" where
  "doc_is doc st = (roots st \<noteq> [] \<and> hd (roots st) = doc)"

text \<open>
  The identities of a tree are below \<open>F\<close>, and the rows of its margin tables are plain.
\<close>

definition okx :: "nat \<Rightarrow> node \<Rightarrow> bool" where
  "okx F x =
     (list_all (\<lambda>i. i < F) (ids x) \<and>
      list_all (\<lambda>T. tag T = ''table'' \<and> margin_table T \<longrightarrow>
                   list_all plain_row (querySelectorAll ''tr'' T)) (elems x))"


section \<open>Annotation snippet matcher (client)\<close>

text \<open>\<open>str.replace(/\s+/g, ' ')\<close>: every maximal run of white space becomes one space.\<close>

function collapse :: "string \<Rightarrow> string" where
  "collapse [] = []"
| "collapse (c # cs) =
     (if is_space c then CHR '' '' # collapse (dropWhile is_space cs) else c # collapse cs)"
  by pat_completeness auto
termination
  by (relation "measure length") (auto simp: length_dropWhile_le less_Suc_eq_le)

definition normalize_str :: "string \<Rightarrow> string" where
  "normalize_str str = toLowerCase (trim (collapse str))"

text \<open>\<open>text.indexOf(p) !== -1\<close> and \<open>text.includes(p)\<close>\<close>

definition contains :: "string \<Rightarrow> string \<Rightarrow> bool" where
  "contains p s = search (starts_with p) s"

text \<open>
  The descendant elements of a list of sibling nodes in document order, each with the nodes
  that follow it under its parent (where \<open>nextElementSibling\<close> looks).
\<close>

fun with_siblings :: "node list \<Rightarrow> (node \<times> node list) list" where
  "with_siblings [] = []"
| "with_siblings (Text s # rest) = with_siblings rest"
| "with_siblings (Elem i t a cs # rest) =
     (Elem i t a cs, rest) # with_siblings cs @ with_siblings rest"

text \<open>\<open>notesDom.querySelectorAll('p, div, li, dd')\<close>\<close>

definition candidates :: "node \<Rightarrow> (node \<times> node list) list" where
  "candidates notesDom =
     filter (\<lambda>c. tag (fst c) \<in> set [''p'', ''div'', ''li'', ''dd''])
       (with_siblings (childNodes notesDom))"

text \<open>
  One turn of the loop over the candidates; the state is \<open>best\<close> and \<open>bestLen\<close>, where no
  length stands for \<open>Infinity\<close>.
\<close>

definition scan_step ::
  "string \<Rightarrow> (node \<times> node list) option \<times> nat option \<Rightarrow> node \<times> node list
     \<Rightarrow> (node \<times> node list) option \<times> nat option" where
  "scan_step normPhrase st el =
     (let txt = normalize_str (textContent (fst el))
      in if txt = [] then st
         else if contains normPhrase txt \<and>
                 (case snd st of None \<Rightarrow> True | Some bestLen \<Rightarrow> length txt < bestLen)
         then (Some el, Some (length txt))
         else st)"

text \<open>What the loop has established after the candidates \<open>cs\<close>.\<close>

definition scan_inv ::
  "string \<Rightarrow> (node \<times> node list) list \<Rightarrow> (node \<times> node list) option \<times> nat option \<Rightarrow> bool" where
  "scan_inv np cs st =
     (case fst st of
        None \<Rightarrow> snd st = None \<and> (\<forall>c\<in>set cs. \<not> contains np (normalize_str (textContent (fst c))))
      | Some b \<Rightarrow>
          snd st = Some (length (normalize_str (textContent (fst b)))) \<and> b \<in> set cs \<and>
          contains np (normalize_str (textContent (fst b))) \<and>
          (\<forall>c\<in>set cs. contains np (normalize_str (textContent (fst c))) \<longrightarrow>
             length (normalize_str (textContent (fst b))) \<le> length (normalize_str (textContent (fst c)))))"

text \<open>
  The loop over \<open>nextElementSibling\<close>: \<open>room\<close> is what \<open>buf\<close> may still take.
\<close>

fun collect :: "nat \<Rightarrow> node list \<Rightarrow> node list" where
  "collect room [] = []"
| "collect room (Text s # rest) = collect room rest"
| "collect room (Elem i t a cs # rest) =
     (if room = 0 then []
      else if normalize_str (textContent (Elem i t a cs)) = [] then []
      else Elem i t a cs # collect (room - 1) rest)"

text \<open>The blocks whose markup \<open>buf\<close> holds; none where the function returns the empty string.\<close>

definition snippet_blocks :: "string \<Rightarrow> node option \<Rightarrow> node list" where
  "snippet_blocks phrase notesDom =
     (let normPhrase = normalize_str phrase
      in (case notesDom of
            None \<Rightarrow> []
          | Some d \<Rightarrow>
              if normPhrase = [] then []
              else (case fst (foldl (scan_step normPhrase) (None, None) (candidates d)) of
                      Some best \<Rightarrow> fst best # collect 3 (snd best)
                    | None \<Rightarrow> [])))"

text \<open>\<open>buf.join('\n')\<close>\<close>

fun join_lines :: "string list \<Rightarrow> string" where
  "join_lines [] = []"
| "join_lines [x] = x"
| "join_lines (x # y # ys) = x @ [CHR 0x0A] @ join_lines (y # ys)"

text \<open>\<open>outerHTML\<close>, the serializer of the platform, is a parameter.\<close>

definition findNoteSnippet :: "(node \<Rightarrow> string) \<Rightarrow> string \<Rightarrow> node option \<Rightarrow> string" where
  "findNoteSnippet outerHTML phrase notesDom =
     join_lines (map outerHTML (snippet_blocks phrase notesDom))"
section \<open>Overlay stack (client)\<close>

text \<open>
  The overlay shows the top entry of a stack of entries. Its content is a list of nodes: what
  the assignment to \<open>overlayContent.innerHTML\<close> parses from the markup of the entry (the parser
  of the platform is the parameter \<open>parse\<close>), with what \<open>wireOverlayLinks\<close> then does to the
  links in it. A click listener is kept with the identity of the link it is added to.
\<close>

record entry =
  html :: string
  etitle :: string

datatype listener = NoteClick | ChapterClick string

record overlay =
  overlayStack :: "entry list"
  visible :: bool
  has_stack :: bool
  overlayContent :: "node list"
  listeners :: "(nat \<times> listener) list"
  overlayTitle :: string
  modal_open :: bool

text \<open>
  The body of \<open>links.forEach(a => ...)\<close> in \<open>wireOverlayLinks\<close>: the attributes of the link
  afterwards, and the listener it is given. The four cases are those of \<open>classify\<close>.
\<close>

definition wireLink ::
  "(string \<Rightarrow> string option) \<Rightarrow> (string \<rightharpoonup> string) \<Rightarrow> node \<Rightarrow> (string \<times> string) list" where
  "wireLink url_path chapterHrefMap a =
     (if tag a \<noteq> ''a'' then attrs a
      else let rawHref = (case getAttribute ''href'' a of Some h \<Rightarrow> h | None \<Rightarrow> [])
           in (case classify url_path chapterHrefMap rawHref of
                 NoteLink \<Rightarrow> attrs a
               | ChapterNav chapterId \<Rightarrow> attrs a
               | AdaDoc url \<Rightarrow>
                   setAttribute ''rel'' ''noopener noreferrer''
                     (setAttribute ''target'' ''_blank'' (setAttribute ''href'' url (attrs a)))
               | Generic \<Rightarrow>
                   setAttribute ''rel'' ''noopener noreferrer''
                     (setAttribute ''target'' ''_blank''
                        (if rawHref \<noteq> [] \<and> \<not> is_http rawHref
                         then setAttribute ''href'' rawHref (attrs a)
                         else attrs a))))"

definition linkListener ::
  "(string \<Rightarrow> string option) \<Rightarrow> (string \<rightharpoonup> string) \<Rightarrow> node \<Rightarrow> (nat \<times> listener) list" where
  "linkListener url_path chapterHrefMap a =
     (if tag a \<noteq> ''a'' then []
      else let rawHref = (case getAttribute ''href'' a of Some h \<Rightarrow> h | None \<Rightarrow> [])
           in (case classify url_path chapterHrefMap rawHref of
                 NoteLink \<Rightarrow> [(ident a, NoteClick)]
               | ChapterNav chapterId \<Rightarrow> [(ident a, ChapterClick chapterId)]
               | AdaDoc url \<Rightarrow> []
               | Generic \<Rightarrow> []))"

text \<open>
  \<open>wireOverlayLinks\<close> on the content of the overlay: \<open>overlayContent.querySelectorAll('a')\<close>
  are the links among the elements of the content, in document order.
\<close>

definition wireOverlayLinks ::
  "(string \<Rightarrow> string option) \<Rightarrow> (string \<rightharpoonup> string) \<Rightarrow> node list
     \<Rightarrow> node list \<times> (nat \<times> listener) list" where
  "wireOverlayLinks url_path chapterHrefMap content =
     (map (map_attrs (wireLink url_path chapterHrefMap)) content,
      concat (map (linkListener url_path chapterHrefMap) (all_elems content)))"

text \<open>\<open>overlayContent.innerHTML = ''\<close> leaves the content without nodes.\<close>

definition closeOverlayCompletely :: "overlay \<Rightarrow> overlay" where
  "closeOverlayCompletely st =
     st\<lparr> overlayStack := [], visible := False, has_stack := False,
         overlayContent := [], listeners := [], modal_open := False \<rparr>"

definition renderOverlay ::
  "(string \<Rightarrow> node list) \<Rightarrow> (string \<Rightarrow> string option) \<Rightarrow> (string \<rightharpoonup> string) \<Rightarrow> overlay
     \<Rightarrow> overlay" where
  "renderOverlay parse url_path chapterHrefMap st =
     (if overlayStack st = [] then closeOverlayCompletely st
      else let top = last (overlayStack st);
               wired = wireOverlayLinks url_path chapterHrefMap (parse (html top))
           in st\<lparr> overlayContent := fst wired,
                   listeners := snd wired,
                   overlayTitle := (if etitle top = [] then ''Commentary'' else etitle top),
                   visible := True,
                   has_stack := (length (overlayStack st) > 1),
                   modal_open := True \<rparr>)"

definition pushOverlay ::
  "(string \<Rightarrow> node list) \<Rightarrow> (string \<Rightarrow> string option) \<Rightarrow> (string \<rightharpoonup> string) \<Rightarrow> string
     \<Rightarrow> string \<Rightarrow> overlay \<Rightarrow> overlay" where
  "pushOverlay parse url_path chapterHrefMap h t st =
     renderOverlay parse url_path chapterHrefMap
       (st\<lparr> overlayStack := overlayStack st @
            [\<lparr> html = (if h = [] then ''<p>No commentary found.</p>'' else h), etitle = t \<rparr>] \<rparr>)"

definition popOverlay ::
  "(string \<Rightarrow> node list) \<Rightarrow> (string \<Rightarrow> string option) \<Rightarrow> (string \<rightharpoonup> string) \<Rightarrow> overlay
     \<Rightarrow> overlay" where
  "popOverlay parse url_path chapterHrefMap st =
     (if length (overlayStack st) > 1
      then renderOverlay parse url_path chapterHrefMap
             (st\<lparr> overlayStack := butlast (overlayStack st) \<rparr>)
      else closeOverlayCompletely st)"

text \<open>
  Every chapter load, the first one included, starts with \<open>closeOverlayCompletely\<close>; from
  there the three operations are the only ones that touch the overlay, whatever the chapter
  index holds when they run.
\<close>

inductive reachable :: "overlay \<Rightarrow> bool" where
  start: "reachable (closeOverlayCompletely st)"
| push: "reachable st \<Longrightarrow> reachable (pushOverlay parse url_path chapterHrefMap h t st)"
| pop: "reachable st \<Longrightarrow> reachable (popOverlay parse url_path chapterHrefMap st)"
| close: "reachable st \<Longrightarrow> reachable (closeOverlayCompletely st)"


section \<open>Example documents\<close>

definition notes_example :: node where
  "notes_example =
     Elem 0 ''div'' [(''id'', ''notes-root'')]
       [Elem 1 ''div'' []
          [Elem 2 ''p'' [] [Text ''Mount  Tabor: a hill''], Text '''',
           Elem 3 ''p'' [] [Text ''more''], Elem 4 ''span'' [] [Text ''s''],
           Elem 5 ''p'' [] [Text ''  ''], Elem 6 ''p'' [] [Text ''no'']],
        Elem 7 ''p'' [] [Text ''tabor'']]"

definition responsive_style :: string where
  "responsive_style = ''max-width: 100%; height: auto; display: block; margin: 12px auto;''"

definition page_with_image :: node where
  "page_with_image =
     Elem 0 ''body'' []
       [Elem 1 ''style'' [] [Text ''p { color: red }''],
        Elem 2 ''p'' [(''style'', ''color: red'')]
          [Text ''Ada'', Elem 3 ''br'' [] [],
           Elem 4 ''img'' [(''src'', ''https://www.ada.auckland.ac.nz/ada.jpg''), (''width'', ''300'')] []]]"

text \<open>
  A page with a template,
  \<^verbatim>\<open><body><template><style>a{}</style><p style="color:red">x</p></template><p>y</p></body>\<close>
\<close>

definition page_with_template :: node where
  "page_with_template =
     Elem 0 ''body'' [] [Elem 1 ''template'' [] [], Elem 2 ''p'' [] [Text ''y'']]"

definition template_content :: "nat \<Rightarrow> markup list" where
  "template_content i =
     (if i = 1
      then [MElem ''style'' [] [MText ''a{}''],
            MElem ''p'' [(''style'', ''color:red'')] [MText ''x'']]
      else [])"

text \<open>
  A margin table whose marker cell holds a table of its own:
  \<^verbatim>\<open><table><tr><td>1.2<table><tr><td>a</td><td>b</td></tr></table></td><td>c</td></tr></table>\<close>
\<close>

definition nested_margin_table :: node where
  "nested_margin_table =
     Elem 0 ''div'' []
       [Elem 1 ''table'' []
          [Elem 2 ''tr'' []
             [Elem 3 ''td'' []
                [Text ''1.2'',
                 Elem 4 ''table'' []
                   [Elem 5 ''tr'' []
                      [Elem 6 ''td'' [] [Text ''a''], Elem 7 ''td'' [] [Text ''b'']]]],
              Elem 8 ''td'' [] [Text ''c'']]]]"

text \<open>
  An overlay that is not hidden, to start from, and a stand-in for the parser that reads every
  markup as one link to \<open>x.pdf\<close> around the text.
\<close>

definition overlay_example :: overlay where
  "overlay_example =
     \<lparr>overlayStack = [], visible = True, has_stack = True, overlayContent = [Text ''x''],
      listeners = [], overlayTitle = ''y'', modal_open = True\<rparr>"

definition parse_example :: "string \<Rightarrow> node list" where
  "parse_example s = [Elem 1 ''a'' [(''href'', ''x.pdf'')] [Text s]]"

text \<open>
  A table without rows, and a table whose one row has one cell, with a margin table in that
  cell: \<^verbatim>\<open><table><tr><td><table><tr><td>a</td><td>z</td></tr></table></td></tr></table>\<close>
\<close>

definition empty_table_page :: node where
  "empty_table_page = Elem 0 ''div'' [] [Elem 1 ''table'' [] []]"

definition table_in_single_cell :: node where
  "table_in_single_cell =
     Elem 0 ''div'' []
       [Elem 1 ''table'' []
          [Elem 2 ''tr'' []
             [Elem 3 ''td'' []
                [Elem 4 ''table'' []
                   [Elem 5 ''tr'' []
                      [Elem 6 ''td'' [] [Text ''a''], Elem 7 ''td'' [] [Text ''z'']]]]]]]"



definition row_in_cell_page :: node where
  "row_in_cell_page =
     Elem 0 ''div'' []
       [Elem 1 ''table'' []
          [Elem 2 ''tr'' []
             [Elem 3 ''td'' []
                [Elem 4 ''table'' []
                   [Elem 5 ''td'' []
                      [Elem 6 ''tr'' []
                         [Elem 7 ''td'' [] [Text ''x''], Elem 8 ''td'' [] [Text ''y'']]]]],
              Elem 9 ''td'' [] [Text ''c'']]]]"

section \<open>Properties of the catalog\<close>

text \<open>
  Claim C6. \<open>buildChapters\<close> returns 69 descriptors, the parts in order and the chapters in
  order within each part; the ids are pairwise distinct and have the form \<open>p{part}c{chapter}\<close>;
  the file token of the URLs is \<open>4\<close> for part 4 and the part number followed by the chapter
  number otherwise; the notes URL is present for the pairs that \<open>hasAnnotationPage\<close> accepts
  (parts 1 and 2, and the first two chapters of part 3) and absent otherwise; the one descriptor
  of part 4 has the text URL ending in \<open>ada4.htm\<close>, no notes URL and the title \<open>Part 4\<close>.
\<close>

theorem buildChapters_catalog:
  "length buildChapters = 69 \<and>
   map (\<lambda>d. (part d, chapterNo d)) buildChapters =
     map (Pair 1) [1 ..< 44] @ map (Pair 2) [1 ..< 12] @ map (Pair 3) [1 ..< 9] @
     [(4, 1)] @ map (Pair 5) [1 ..< 7] \<and>
   distinct (map cid buildChapters) \<and>
   list_all (\<lambda>d.
       cid d = ''p'' @ dec (part d) @ ''c'' @ dec (chapterNo d) \<and>
       textUrl d = ''https://www.ada.auckland.ac.nz/ada'' @
          (if part d = 4 then ''4'' else dec (part d) @ dec (chapterNo d)) @ ''.htm'' \<and>
       notesUrl d =
          (if hasAnnotationPage (part d) (chapterNo d)
           then Some (''https://www.ada.auckland.ac.nz/ada'' @
                  (if part d = 4 then ''4'' else dec (part d) @ dec (chapterNo d)) @ ''ann.htm'')
           else None))
     buildChapters \<and>
   map (\<lambda>d. (part d, chapterNo d)) (filter (\<lambda>d. notesUrl d \<noteq> None) buildChapters) =
     map (Pair 1) [1 ..< 44] @ map (Pair 2) [1 ..< 12] @ [(3, 1), (3, 2)] \<and>
   filter (\<lambda>d. part d = 4) buildChapters =
     [\<lparr> cid = ''p4c1'', part = 4, chapterNo = 1,
        textUrl = ''https://www.ada.auckland.ac.nz/ada4.htm'',
        notesUrl = None, title = ''Part 4'' \<rparr>]"
proof (intro conjI)
  show "length buildChapters = 69" by code_simp
  show "map (\<lambda>d. (part d, chapterNo d)) buildChapters =
     map (Pair 1) [1 ..< 44] @ map (Pair 2) [1 ..< 12] @ map (Pair 3) [1 ..< 9] @
     [(4, 1)] @ map (Pair 5) [1 ..< 7]" by code_simp
  show "distinct (map cid buildChapters)" by code_simp
  show "list_all (\<lambda>d.
       cid d = ''p'' @ dec (part d) @ ''c'' @ dec (chapterNo d) \<and>
       textUrl d = ''https://www.ada.auckland.ac.nz/ada'' @
          (if part d = 4 then ''4'' else dec (part d) @ dec (chapterNo d)) @ ''.htm'' \<and>
       notesUrl d =
          (if hasAnnotationPage (part d) (chapterNo d)
           then Some (''https://www.ada.auckland.ac.nz/ada'' @
                  (if part d = 4 then ''4'' else dec (part d) @ dec (chapterNo d)) @ ''ann.htm'')
           else None))
     buildChapters" by code_simp
  show "map (\<lambda>d. (part d, chapterNo d)) (filter (\<lambda>d. notesUrl d \<noteq> None) buildChapters) =
     map (Pair 1) [1 ..< 44] @ map (Pair 2) [1 ..< 12] @ [(3, 1), (3, 2)]" by code_simp
  show "filter (\<lambda>d. part d = 4) buildChapters =
     [\<lparr> cid = ''p4c1'', part = 4, chapterNo = 1,
        textUrl = ''https://www.ada.auckland.ac.nz/ada4.htm'',
        notesUrl = None, title = ''Part 4'' \<rparr>]" by code_simp
qed

section \<open>Properties of the reference handler\<close>

lemma lower_char_dot: "(lower_char c = CHR ''.'') = (c = CHR ''.'')"
proof
  assume h: "lower_char c = CHR ''.''"
  show "c = CHR ''.''"
  proof (cases "map_of (zip upper_chars lower_chars) c")
    case None
    with h show ?thesis by (simp add: lower_char_def)
  next
    case (Some l)
    then have "l \<in> set lower_chars" by (meson map_of_SomeD set_zip_rightD)
    moreover have "CHR ''.'' \<notin> set lower_chars" by (simp add: lower_chars_def)
    moreover from Some h have "l = CHR ''.''" by (simp add: lower_char_def)
    ultimately show ?thesis by simp
  qed
next
  have "lower_char (CHR ''.'') = CHR ''.''" by code_simp
  moreover assume "c = CHR ''.''"
  ultimately show "lower_char c = CHR ''.''" by simp
qed

lemma not_word_dot: "\<not> is_word (CHR ''.'')"
  by (simp add: is_word_def)

lemma lower_dot_htm: "toLowerCase ''.htm'' = ''.htm''"
  by code_simp

lemma safe_ref_file_iff:
  "safe_ref_file file =
     (\<exists>name ext. file = name @ ''.'' @ ext \<and> name \<noteq> [] \<and> list_all is_word name \<and>
        toLowerCase ext = ''htm'')"
proof
  assume s: "safe_ref_file file"
  let ?n = "takeWhile is_word file" and ?r = "dropWhile is_word file"
  from s have n: "?n \<noteq> []" and r: "toLowerCase ?r = ''.htm''"
    by (simp_all add: safe_ref_file_def)
  from r obtain c ext where ce: "?r = c # ext" and c: "lower_char c = CHR ''.''"
    and e: "toLowerCase ext = ''htm''"
    by (cases ?r) (simp_all add: toLowerCase_def)
  from c have "c = CHR ''.''" by (simp only: lower_char_dot)
  with ce have "file = ?n @ ''.'' @ ext"
    using takeWhile_dropWhile_id [of is_word "file"] by simp
  moreover have "list_all is_word ?n"
    unfolding list_all_iff by (meson set_takeWhileD)
  ultimately show "\<exists>name ext. file = name @ ''.'' @ ext \<and> name \<noteq> [] \<and> list_all is_word name \<and>
        toLowerCase ext = ''htm''"
    using n e by blast
next
  assume "\<exists>name ext. file = name @ ''.'' @ ext \<and> name \<noteq> [] \<and> list_all is_word name \<and>
        toLowerCase ext = ''htm''"
  then obtain name ext where f: "file = name @ ''.'' @ ext" and n: "name \<noteq> []"
    and w: "list_all is_word name" and e: "toLowerCase ext = ''htm''" by blast
  from w have w': "\<And>x. x \<in> set name \<Longrightarrow> is_word x" by (simp add: list_all_iff)
  have tw: "takeWhile is_word file = name"
    unfolding f using w' not_word_dot by (simp add: takeWhile_tail)
  have dw: "dropWhile is_word file = ''.'' @ ext"
    unfolding f using w' not_word_dot by (simp add: dropWhile_append3)
  have "toLowerCase (''.'' @ ext) = toLowerCase ''.'' @ toLowerCase ext"
    by (simp add: toLowerCase_def)
  also have "toLowerCase ''.'' = ''.''" by code_simp
  finally have "toLowerCase (''.'' @ ext) = ''.htm''" using e by simp
  with tw dw n show "safe_ref_file file" by (simp add: safe_ref_file_def)
qed

text \<open>
  Claim C7. The reference handler answers 400 exactly when the file name is not one or more
  characters among letters, digits, underscore and hyphen followed by the extension \<open>.htm\<close>
  (which the \<open>i\<close> flag of the pattern accepts in either letter case); the names \<open>../../etc\<close>
  and \<open>x.php\<close> are rejected; and the handler has fetched nothing exactly when it rejects.
\<close>

theorem api_ref_validation:
  "(fst (api_ref fetch render file) = 400) =
     (\<not> (\<exists>name ext. file = name @ ''.'' @ ext \<and> name \<noteq> [] \<and> list_all is_word name \<and>
            toLowerCase ext = ''htm'')) \<and>
   (snd (api_ref fetch render file) = []) = (fst (api_ref fetch render file) = 400) \<and>
   api_ref fetch render ''../../etc'' = (400, []) \<and>
   api_ref fetch render ''x.php'' = (400, [])"
proof (intro conjI)
  show "(fst (api_ref fetch render file) = 400) =
     (\<not> (\<exists>name ext. file = name @ ''.'' @ ext \<and> name \<noteq> [] \<and> list_all is_word name \<and>
            toLowerCase ext = ''htm''))"
    unfolding safe_ref_file_iff [symmetric]
    by (simp add: api_ref_def Let_def split: fetch_result.splits option.splits)
  show "(snd (api_ref fetch render file) = []) = (fst (api_ref fetch render file) = 400)"
    by (simp add: api_ref_def Let_def split: fetch_result.splits option.splits)
  have a: "\<not> safe_ref_file ''../../etc''" by code_simp
  have b: "\<not> safe_ref_file ''x.php''" by code_simp
  show "api_ref fetch render ''../../etc'' = (400, [])" using a by (simp add: api_ref_def)
  show "api_ref fetch render ''x.php'' = (400, [])" using b by (simp add: api_ref_def)
qed

section \<open>Properties of the overlay stack\<close>

lemma reachable_inv:
  "reachable st \<Longrightarrow>
     visible st = (length (overlayStack st) \<ge> 1) \<and> has_stack st = (length (overlayStack st) > 1)"
proof (induction rule: reachable.induct)
  case (start st)
  show ?case by (simp add: closeOverlayCompletely_def)
next
  case (push st parse url_path chapterHrefMap h t)
  show ?case by (simp add: pushOverlay_def renderOverlay_def Let_def)
next
  case (pop st parse url_path chapterHrefMap)
  then show ?case
    by (cases "overlayStack st" rule: rev_cases)
       (auto simp: popOverlay_def renderOverlay_def closeOverlayCompletely_def Let_def Suc_le_eq)
next
  case (close st)
  show ?case by (simp add: closeOverlayCompletely_def)
qed

text \<open>
  Claim C8. From the hidden overlay with the empty stack, in every state the three operations
  reach: a push makes the stack one deeper and the overlay visible; a pop at depth above 1
  removes the top entry only and leaves the overlay visible, showing the entry below it (the
  nodes parsed from its markup, with their links wired, under its title); a pop at depth 1
  (or 0) and a complete close empty the stack and hide the overlay; the back affordance is
  shown exactly at depth above 1, and the overlay is visible exactly at depth at least 1; push,
  push, pop from the empty stack leaves one entry, visible, without the back affordance.
\<close>

theorem overlay_machine:
  "reachable st \<Longrightarrow>
     length (overlayStack (pushOverlay parse url_path m h t st)) = length (overlayStack st) + 1 \<and>
     visible (pushOverlay parse url_path m h t st) \<and>
     (if length (overlayStack st) > 1
      then overlayStack (popOverlay parse url_path m st) = butlast (overlayStack st) \<and>
           visible (popOverlay parse url_path m st) \<and>
           overlayContent (popOverlay parse url_path m st) =
             fst (wireOverlayLinks url_path m (parse (html (last (butlast (overlayStack st)))))) \<and>
           listeners (popOverlay parse url_path m st) =
             snd (wireOverlayLinks url_path m (parse (html (last (butlast (overlayStack st)))))) \<and>
           overlayTitle (popOverlay parse url_path m st) =
             (if etitle (last (butlast (overlayStack st))) = [] then ''Commentary''
              else etitle (last (butlast (overlayStack st))))
      else overlayStack (popOverlay parse url_path m st) = [] \<and>
           \<not> visible (popOverlay parse url_path m st)) \<and>
     overlayStack (closeOverlayCompletely st) = [] \<and> \<not> visible (closeOverlayCompletely st) \<and>
     has_stack st = (length (overlayStack st) > 1) \<and>
     visible st = (length (overlayStack st) \<ge> 1) \<and>
     (overlayStack st = [] \<longrightarrow>
        length (overlayStack (popOverlay parse url_path m
          (pushOverlay parse url_path m h2 t2 (pushOverlay parse url_path m h t st)))) = 1 \<and>
        visible (popOverlay parse url_path m
          (pushOverlay parse url_path m h2 t2 (pushOverlay parse url_path m h t st))) \<and>
        \<not> has_stack (popOverlay parse url_path m
          (pushOverlay parse url_path m h2 t2 (pushOverlay parse url_path m h t st))))"
proof -
  assume r: "reachable st"
  note inv = reachable_inv [OF r]
  have pp: "overlayStack st = [] \<Longrightarrow>
        length (overlayStack (popOverlay parse url_path m
          (pushOverlay parse url_path m h2 t2 (pushOverlay parse url_path m h t st)))) = 1 \<and>
        visible (popOverlay parse url_path m
          (pushOverlay parse url_path m h2 t2 (pushOverlay parse url_path m h t st))) \<and>
        \<not> has_stack (popOverlay parse url_path m
          (pushOverlay parse url_path m h2 t2 (pushOverlay parse url_path m h t st)))"
    by (simp add: popOverlay_def pushOverlay_def renderOverlay_def Let_def)
  have p: "(if length (overlayStack st) > 1
      then overlayStack (popOverlay parse url_path m st) = butlast (overlayStack st) \<and>
           visible (popOverlay parse url_path m st) \<and>
           overlayContent (popOverlay parse url_path m st) =
             fst (wireOverlayLinks url_path m (parse (html (last (butlast (overlayStack st)))))) \<and>
           listeners (popOverlay parse url_path m st) =
             snd (wireOverlayLinks url_path m (parse (html (last (butlast (overlayStack st)))))) \<and>
           overlayTitle (popOverlay parse url_path m st) =
             (if etitle (last (butlast (overlayStack st))) = [] then ''Commentary''
              else etitle (last (butlast (overlayStack st))))
      else overlayStack (popOverlay parse url_path m st) = [] \<and>
           \<not> visible (popOverlay parse url_path m st))"
    by (cases "overlayStack st" rule: rev_cases)
       (auto simp: popOverlay_def renderOverlay_def closeOverlayCompletely_def Let_def Suc_le_eq)
  have q: "length (overlayStack (pushOverlay parse url_path m h t st)) =
      length (overlayStack st) + 1 \<and> visible (pushOverlay parse url_path m h t st)"
    by (simp add: pushOverlay_def renderOverlay_def Let_def)
  have c: "overlayStack (closeOverlayCompletely st) = [] \<and> \<not> visible (closeOverlayCompletely st)"
    by (simp add: closeOverlayCompletely_def)
  from inv pp p q c show ?thesis by blast
qed

theorem overlay_machine_witness:
  "reachable (closeOverlayCompletely overlay_example) \<and>
   overlayStack (closeOverlayCompletely overlay_example) = [] \<and>
   length (overlayStack (popOverlay parse_example basic_url_path Map.empty
     (pushOverlay parse_example basic_url_path Map.empty ''b'' ''u''
        (pushOverlay parse_example basic_url_path Map.empty ''a'' ''t''
           (closeOverlayCompletely overlay_example))))) = 1 \<and>
   visible (popOverlay parse_example basic_url_path Map.empty
     (pushOverlay parse_example basic_url_path Map.empty ''b'' ''u''
        (pushOverlay parse_example basic_url_path Map.empty ''a'' ''t''
           (closeOverlayCompletely overlay_example)))) \<and>
   \<not> has_stack (popOverlay parse_example basic_url_path Map.empty
     (pushOverlay parse_example basic_url_path Map.empty ''b'' ''u''
        (pushOverlay parse_example basic_url_path Map.empty ''a'' ''t''
           (closeOverlayCompletely overlay_example)))) \<and>
   overlayContent (popOverlay parse_example basic_url_path Map.empty
     (pushOverlay parse_example basic_url_path Map.empty ''b'' ''u''
        (pushOverlay parse_example basic_url_path Map.empty ''a'' ''t''
           (closeOverlayCompletely overlay_example)))) =
     [Elem 1 ''a'' [(''href'', ''x.pdf''), (''target'', ''_blank''), (''rel'', ''noopener noreferrer'')]
        [Text ''a'']]"
proof -
  let ?s = "closeOverlayCompletely overlay_example"
  let ?s1 = "pushOverlay parse_example basic_url_path Map.empty ''a'' ''t'' ?s"
  let ?s2 = "pushOverlay parse_example basic_url_path Map.empty ''b'' ''u'' ?s1"
  have r: "reachable ?s" by (rule reachable.start)
  have e: "overlayStack ?s = []" by (simp add: closeOverlayCompletely_def)
  have r2: "reachable ?s2" by (intro reachable.push r)
  have s2: "overlayStack ?s2 = [\<lparr>html = ''a'', etitle = ''t''\<rparr>, \<lparr>html = ''b'', etitle = ''u''\<rparr>]"
    by (simp add: pushOverlay_def renderOverlay_def closeOverlayCompletely_def Let_def)
  have w: "fst (wireOverlayLinks basic_url_path Map.empty (parse_example ''a'')) =
      [Elem 1 ''a'' [(''href'', ''x.pdf''), (''target'', ''_blank''), (''rel'', ''noopener noreferrer'')]
        [Text ''a'']]"
    by code_simp
  from overlay_machine [OF r2, of parse_example basic_url_path Map.empty] s2 w
  have "overlayContent (popOverlay parse_example basic_url_path Map.empty ?s2) =
      [Elem 1 ''a'' [(''href'', ''x.pdf''), (''target'', ''_blank''), (''rel'', ''noopener noreferrer'')]
        [Text ''a'']]"
    by simp
  moreover from overlay_machine [OF r, of parse_example basic_url_path Map.empty "''a''" "''t''"
      "''b''" "''u''"] e
  have "length (overlayStack (popOverlay parse_example basic_url_path Map.empty ?s2)) = 1 \<and>
     visible (popOverlay parse_example basic_url_path Map.empty ?s2) \<and>
     \<not> has_stack (popOverlay parse_example basic_url_path Map.empty ?s2)"
    by simp
  ultimately show ?thesis using r e by blast
qed

section \<open>Properties of href normalization\<close>

lemma split_on_not_Nil: "split_on c s \<noteq> []"
  by (induction s) (auto split: list.splits)

lemma split_on_notin: "c \<notin> set s \<Longrightarrow> split_on c s = [s]"
  by (induction s) auto

lemma split_on_in: "c \<in> set s \<Longrightarrow> \<exists>w v ws. split_on c s = w # v # ws"
proof (induction s)
  case Nil
  then show ?case by simp
next
  case (Cons x xs)
  show ?case
  proof (cases "x = c")
    case True
    then show ?thesis using split_on_not_Nil [of c xs] by (cases "split_on c xs") auto
  next
    case False
    with Cons.prems have "c \<in> set xs" by simp
    from Cons.IH [OF this] False show ?thesis by auto
  qed
qed

lemma pop_split_on: "pop (split_on c s) = rev (takeWhile (\<lambda>x. x \<noteq> c) (rev s))"
proof (induction s)
  case Nil
  show ?case by (simp add: pop_def)
next
  case (Cons x xs)
  show ?case
  proof (cases "c \<in> set xs")
    case True
    then have t: "takeWhile (\<lambda>x. x \<noteq> c) (rev xs @ [x]) = takeWhile (\<lambda>x. x \<noteq> c) (rev xs)"
      by (intro takeWhile_append1 [where x = c]) auto
    have "pop (split_on c (x # xs)) = pop (split_on c xs)"
      using split_on_in [OF True] by (auto simp: pop_def)
    with Cons t show ?thesis by simp
  next
    case False
    then have t: "takeWhile (\<lambda>x. x \<noteq> c) (rev xs @ [x]) = rev xs @ takeWhile (\<lambda>x. x \<noteq> c) [x]"
      by (intro takeWhile_append2) auto
    from False have "split_on c xs = [xs]" by (rule split_on_notin)
    then show ?thesis using t by (auto simp: pop_def)
  qed
qed

lemma pop_final_segment: "pop (split_on (CHR ''/'') s) = final_segment s"
  by (simp add: pop_split_on final_segment_def)

lemma indexOf_cut:
  "take (case indexOf s q of
           Some i \<Rightarrow> min (case indexOf s h of Some i \<Rightarrow> min (length s) i | None \<Rightarrow> length s) i
         | None \<Rightarrow> (case indexOf s h of Some i \<Rightarrow> min (length s) i | None \<Rightarrow> length s)) s =
   takeWhile (\<lambda>c. c \<noteq> h \<and> c \<noteq> q) s"
  by (induction s) (auto split: option.splits)

lemma normalize_form:
  "normalizeAdaHref up href =
     (let s = strip_query_fragment (trim href)
      in non_empty (toLowerCase
           (if is_http s then (case up s of Some p \<Rightarrow> final_segment p | None \<Rightarrow> s)
            else final_segment s)))"
proof -
  have e: "is_http [] = False" by (simp add: is_http_def starts_with_ci_def toLowerCase_def)
  have f: "final_segment [] = []" by (simp add: final_segment_def)
  have t: "trim [] = []" by (simp add: trim_def)
  show ?thesis
    unfolding normalizeAdaHref_def Let_def indexOf_cut pop_final_segment
      strip_query_fragment_def [symmetric]
    by (simp add: non_empty_def toLowerCase_def e f t strip_query_fragment_def split: option.splits)
qed

lemma trim_keeps_head: "\<not> is_space c \<Longrightarrow> \<exists>r'. trim (c # r) = c # r'"
proof -
  assume n: "\<not> is_space c"
  then have "dropWhile is_space (rev r @ [c]) = dropWhile is_space (rev r) @ [c]"
    by (simp add: dropWhile_append3)
  with n show ?thesis by (simp add: trim_def)
qed

lemma hash_is_note: "href = [] \<or> starts_with ''#'' href \<Longrightarrow> isAdaNoteHref href"
proof (cases href)
  case Nil
  then show ?thesis by (simp add: isAdaNoteHref_def)
next
  case (Cons c r)
  assume "href = [] \<or> starts_with ''#'' href"
  with Cons have c: "c = CHR ''#''" by (simp add: starts_with_def)
  have "\<not> is_space (CHR ''#'')" by (simp add: is_space_def space_chars_def)
  from trim_keeps_head [OF this, of r] obtain r' where "trim (CHR ''#'' # r) = CHR ''#'' # r'"
    by blast
  with Cons c show ?thesis by (simp add: isAdaNoteHref_def Let_def starts_with_def)
qed

text \<open>
  Claim C5. Href normalization is the lower-cased final segment of the href without its query
  string and fragment: of the path the URL parser gives for an absolute \<open>http(s)\<close> URL, of
  the href itself otherwise, and no result where that segment is empty. So \<open>ADA12.HTM?x=1#y\<close>
  gives \<open>ada12.htm\<close>, and \<open>https://www.ada.auckland.ac.nz/ADA21.htm\<close>, whose path is
  \<open>/ADA21.htm\<close>, gives \<open>ada21.htm\<close>. An href that is empty or starts with \<open>#\<close> is an
  annotation reference by the first rule, whatever the chapter index holds.
\<close>

theorem normalizeAdaHref_spec:
  "(\<not> is_http (strip_query_fragment (trim href)) \<longrightarrow>
      normalizeAdaHref up href =
        non_empty (toLowerCase (final_segment (strip_query_fragment (trim href))))) \<and>
   (is_http (strip_query_fragment (trim href)) \<and> up (strip_query_fragment (trim href)) = Some p \<longrightarrow>
      normalizeAdaHref up href = non_empty (toLowerCase (final_segment p))) \<and>
   normalizeAdaHref up ''ADA12.HTM?x=1#y'' = Some ''ada12.htm'' \<and>
   (up ''https://www.ada.auckland.ac.nz/ADA21.htm'' = Some ''/ADA21.htm'' \<longrightarrow>
      normalizeAdaHref up ''https://www.ada.auckland.ac.nz/ADA21.htm'' = Some ''ada21.htm'') \<and>
   (href = [] \<or> starts_with ''#'' href \<longrightarrow>
      isAdaNoteHref href \<and> classify up m href = NoteLink)"
proof (intro conjI impI)
  assume "\<not> is_http (strip_query_fragment (trim href))"
  then show "normalizeAdaHref up href =
        non_empty (toLowerCase (final_segment (strip_query_fragment (trim href))))"
    by (simp add: normalize_form Let_def)
next
  assume "is_http (strip_query_fragment (trim href)) \<and> up (strip_query_fragment (trim href)) = Some p"
  then show "normalizeAdaHref up href = non_empty (toLowerCase (final_segment p))"
    by (simp add: normalize_form Let_def)
next
  have a: "strip_query_fragment (trim ''ADA12.HTM?x=1#y'') = ''ADA12.HTM''" by code_simp
  have b: "\<not> is_http ''ADA12.HTM''" by code_simp
  have c: "non_empty (toLowerCase (final_segment ''ADA12.HTM'')) = Some ''ada12.htm''" by code_simp
  show "normalizeAdaHref up ''ADA12.HTM?x=1#y'' = Some ''ada12.htm''"
    by (simp only: normalize_form Let_def a b c if_False)
next
  assume u: "up ''https://www.ada.auckland.ac.nz/ADA21.htm'' = Some ''/ADA21.htm''"
  have a: "strip_query_fragment (trim ''https://www.ada.auckland.ac.nz/ADA21.htm'') =
      ''https://www.ada.auckland.ac.nz/ADA21.htm''" by code_simp
  have b: "is_http ''https://www.ada.auckland.ac.nz/ADA21.htm''" by code_simp
  have c: "non_empty (toLowerCase (final_segment ''/ADA21.htm'')) = Some ''ada21.htm''" by code_simp
  show "normalizeAdaHref up ''https://www.ada.auckland.ac.nz/ADA21.htm'' = Some ''ada21.htm''"
    by (simp only: normalize_form Let_def a b c u if_True option.case)
next
  assume h: "href = [] \<or> starts_with ''#'' href"
  then show "isAdaNoteHref href" by (rule hash_is_note)
  then show "classify up m href = NoteLink" by (simp add: classify_def)
qed

theorem normalizeAdaHref_spec_witness:
  "\<not> is_http (strip_query_fragment (trim ''notes/Ada3.HTM?p=1'')) \<and>
   normalizeAdaHref basic_url_path ''notes/Ada3.HTM?p=1'' = Some ''ada3.htm'' \<and>
   is_http (strip_query_fragment (trim ''https://www.ada.auckland.ac.nz/ADA21.htm#top'')) \<and>
   basic_url_path (strip_query_fragment (trim ''https://www.ada.auckland.ac.nz/ADA21.htm#top''))
     = Some ''/ADA21.htm'' \<and>
   normalizeAdaHref basic_url_path ''https://www.ada.auckland.ac.nz/ADA21.htm#top'' = Some ''ada21.htm'' \<and>
   basic_url_path ''https://www.ada.auckland.ac.nz/ADA21.htm'' = Some ''/ADA21.htm'' \<and>
   normalizeAdaHref basic_url_path ''https://www.ada.auckland.ac.nz/ADA21.htm'' = Some ''ada21.htm'' \<and>
   starts_with ''#'' ''#n12'' \<and>
   classify basic_url_path [''n12'' \<mapsto> ''p1c1''] ''#n12'' = NoteLink"
proof -
  have a: "\<not> is_http (strip_query_fragment (trim ''notes/Ada3.HTM?p=1''))" by code_simp
  have a': "non_empty (toLowerCase (final_segment (strip_query_fragment (trim ''notes/Ada3.HTM?p=1''))))
     = Some ''ada3.htm''" by code_simp
  have b: "is_http (strip_query_fragment (trim ''https://www.ada.auckland.ac.nz/ADA21.htm#top''))"
    by code_simp
  have c: "basic_url_path (strip_query_fragment (trim ''https://www.ada.auckland.ac.nz/ADA21.htm#top''))
     = Some ''/ADA21.htm''" by code_simp
  have c': "non_empty (toLowerCase (final_segment ''/ADA21.htm'')) = Some ''ada21.htm''" by code_simp
  have d: "basic_url_path ''https://www.ada.auckland.ac.nz/ADA21.htm'' = Some ''/ADA21.htm''"
    by code_simp
  have e: "starts_with ''#'' ''#n12''" by code_simp
  from normalizeAdaHref_spec [of "''notes/Ada3.HTM?p=1''" basic_url_path] a a'
  have 1: "normalizeAdaHref basic_url_path ''notes/Ada3.HTM?p=1'' = Some ''ada3.htm''" by simp
  from normalizeAdaHref_spec [of "''https://www.ada.auckland.ac.nz/ADA21.htm#top''" basic_url_path
      "''/ADA21.htm''"] b c c'
  have 2: "normalizeAdaHref basic_url_path ''https://www.ada.auckland.ac.nz/ADA21.htm#top'' =
      Some ''ada21.htm''" by simp
  from normalizeAdaHref_spec [of "''#n12''" basic_url_path _ "[''n12'' \<mapsto> ''p1c1'']"] d e
  have 3: "normalizeAdaHref basic_url_path ''https://www.ada.auckland.ac.nz/ADA21.htm'' = Some ''ada21.htm''"
    and 4: "classify basic_url_path [''n12'' \<mapsto> ''p1c1''] ''#n12'' = NoteLink" by blast+
  from a b c d e 1 2 3 4 show ?thesis by blast
qed

section \<open>Properties of the chapter href index\<close>

lemma foldl_updates:
  "(\<And>d m. d \<in> set xs \<Longrightarrow> f m d = m(K d \<mapsto> V d)) \<Longrightarrow>
   foldl f m xs = m ++ map_of (rev (map (\<lambda>d. (K d, V d)) xs))"
proof (induction xs arbitrary: m)
  case Nil
  show ?case by simp
next
  case (Cons x xs)
  have "foldl f (m(K x \<mapsto> V x)) xs = m(K x \<mapsto> V x) ++ map_of (rev (map (\<lambda>d. (K d, V d)) xs))"
    by (rule Cons.IH [of "m(K x \<mapsto> V x)"]) (rule Cons.prems, simp)
  moreover have "f m x = m(K x \<mapsto> V x)" by (rule Cons.prems) simp
  moreover have "m(K x \<mapsto> V x) = m ++ [K x \<mapsto> V x]" by simp
  ultimately show ?case
    by (simp only: foldl_Cons list.map rev.simps map_of_append map_add_assoc map_of.simps fst_conv snd_conv)
qed

lemma map_of_rev_distinct:
  "distinct (map K xs) \<Longrightarrow> d \<in> set xs \<Longrightarrow>
   map_of (rev (map (\<lambda>d. (K d, V d)) xs)) (K d) = Some (V d)"
proof -
  assume di: "distinct (map K xs)" and d: "d \<in> set xs"
  have "map fst (rev (map (\<lambda>d. (K d, V d)) xs)) = rev (map K xs)"
    by (simp add: rev_map comp_def)
  with di have "distinct (map fst (rev (map (\<lambda>d. (K d, V d)) xs)))" by simp
  moreover from d have "(K d, V d) \<in> set (rev (map (\<lambda>d. (K d, V d)) xs))" by auto
  ultimately show ?thesis by (rule map_of_is_SomeI)
qed

lemma dec_digits: "set (dec n) \<subseteq> set ''0123456789'' \<and> dec n \<noteq> []"
proof (induction n rule: dec.induct)
  case (1 n)
  have d: "\<And>k. k < 10 \<Longrightarrow> digit k \<in> set ''0123456789''"
    unfolding digit_def by (rule nth_mem) simp
  show ?case
  proof (cases "n < 10")
    case True
    then show ?thesis using d [of n] by (subst dec.simps, subst dec.simps) simp
  next
    case False
    with 1 have "set (dec (n div 10)) \<subseteq> set ''0123456789''" by simp
    moreover have "digit (n mod 10) \<in> set ''0123456789''" by (rule d) simp
    ultimately show ?thesis using False by (subst dec.simps, subst (2) dec.simps) simp
  qed
qed

lemma dropWhile_none: "(\<And>x. x \<in> set xs \<Longrightarrow> \<not> P x) \<Longrightarrow> dropWhile P xs = xs"
  by (cases xs) auto

lemma takeWhile_all: "(\<And>x. x \<in> set xs \<Longrightarrow> P x) \<Longrightarrow> takeWhile P xs = xs"
  by (induction xs) auto

lemma url_chars_facts:
  "list_all (\<lambda>c. \<not> is_space c \<and> c \<noteq> CHR ''#'' \<and> c \<noteq> CHR ''?'' \<and> lower_char c = c) url_chars"
  unfolding url_chars_def by code_simp

lemma url_chars_ok:
  assumes "set s \<subseteq> set url_chars"
  shows "trim s = s" "strip_query_fragment s = s" "toLowerCase s = s"
proof -
  from url_chars_facts assms
  have f: "\<And>c. c \<in> set s \<Longrightarrow> \<not> is_space c \<and> c \<noteq> CHR ''#'' \<and> c \<noteq> CHR ''?'' \<and> lower_char c = c"
    unfolding list_all_iff by blast
  have "dropWhile is_space s = s" by (rule dropWhile_none) (simp add: f)
  moreover have "dropWhile is_space (rev s) = rev s" by (rule dropWhile_none) (simp add: f)
  ultimately show "trim s = s" by (simp add: trim_def)
  show "strip_query_fragment s = s"
    unfolding strip_query_fragment_def by (rule takeWhile_all) (simp add: f)
  from f show "toLowerCase s = s" by (simp add: toLowerCase_def map_idI)
qed

lemma plain_chars:
  "list_all (\<lambda>c. c \<in> set url_chars \<and> c \<noteq> CHR ''/'' \<and> c \<noteq> CHR '':'') ''0123456789adhtm.''"
  unfolding url_chars_def by code_simp

lemma chapter_file_chars:
  "set (chapter_file d) \<subseteq> set ''0123456789adhtm.'' \<and> chapter_file d \<noteq> []"
proof -
  have "set (textId (part d) (chapterNo d)) \<subseteq> set ''0123456789''"
    using dec_digits [of "part d"] dec_digits [of "chapterNo d"]
    by (simp add: textId_def)
  then have "set (textId (part d) (chapterNo d)) \<subseteq> set ''0123456789adhtm.''"
    by (rule subset_trans) simp
  then show ?thesis unfolding chapter_file_def by simp
qed

lemma chapter_file_ok:
  "set (chapter_file d) \<subseteq> set url_chars" "CHR ''/'' \<notin> set (chapter_file d)"
  "CHR '':'' \<notin> set (chapter_file d)"
  using chapter_file_chars [of d] plain_chars unfolding list_all_iff by blast+

lemma final_segment_append:
  "CHR ''/'' \<notin> set w \<Longrightarrow> final_segment (pre @ CHR ''/'' # w) = w"
proof -
  assume n: "CHR ''/'' \<notin> set w"
  have "takeWhile (\<lambda>c. c \<noteq> CHR ''/'') (rev w @ CHR ''/'' # rev pre) = rev w"
    by (rule takeWhile_tail [THEN trans]) (use n in auto)
  then show ?thesis by (simp add: final_segment_def)
qed

lemma final_segment_plain: "CHR ''/'' \<notin> set w \<Longrightarrow> final_segment w = w"
proof -
  assume n: "CHR ''/'' \<notin> set w"
  have "takeWhile (\<lambda>c. c \<noteq> CHR ''/'') (rev w) = rev w"
    by (rule takeWhile_all) (use n in auto)
  then show ?thesis unfolding final_segment_def by (simp only: rev_rev_ident)
qed

lemma buildChapters_mem:
  assumes "d \<in> set buildChapters"
  shows "textUrl d = ''https://www.ada.auckland.ac.nz/'' @ chapter_file d" "cid d \<noteq> []"
proof -
  from assms obtain p c where d: "d = mkChapter p c"
    by (auto simp: buildChapters_def)
  show "textUrl d = ''https://www.ada.auckland.ac.nz/'' @ chapter_file d"
    by (simp add: d mkChapter_def chapter_file_def)
  show "cid d \<noteq> []" by (simp add: d mkChapter_def)
qed

lemma catalog_files_distinct: "distinct (map chapter_file buildChapters)"
  unfolding chapter_file_def by code_simp

lemma url_prefix_chars: "set ''https://www.ada.auckland.ac.nz/'' \<subseteq> set url_chars"
  unfolding url_chars_def by code_simp

lemma not_http_file: "\<not> is_http (chapter_file d)"
proof
  assume h: "is_http (chapter_file d)"
  have l: "\<And>n. toLowerCase (take n (chapter_file d)) = take n (chapter_file d)"
    by (rule url_chars_ok(3)) (meson chapter_file_ok(1) set_take_subset subset_trans)
  from h consider (a) "take (length ''http://'') (chapter_file d) = ''http://''"
    | (b) "take (length ''https://'') (chapter_file d) = ''https://''"
    unfolding is_http_def starts_with_ci_def l by blast
  then have "CHR '':'' \<in> set (chapter_file d)"
  proof cases
    case a
    have "CHR '':'' \<in> set ''http://''" by simp
    then have "CHR '':'' \<in> set (take (length ''http://'') (chapter_file d))" by (simp only: a)
    then show ?thesis by (rule in_set_takeD)
  next
    case b
    have "CHR '':'' \<in> set ''https://''" by simp
    then have "CHR '':'' \<in> set (take (length ''https://'') (chapter_file d))" by (simp only: b)
    then show ?thesis by (rule in_set_takeD)
  qed
  with chapter_file_ok(3) show False by blast
qed

lemma is_http_url: "is_http (''https://www.ada.auckland.ac.nz/'' @ w)"
proof -
  have "toLowerCase ''https://'' = ''https://''" by code_simp
  then show ?thesis by (simp add: is_http_def starts_with_ci_def)
qed


lemma href_entry_catalog:
  assumes d: "d \<in> set buildChapters"
    and up: "up (textUrl d) = Some (''/'' @ chapter_file d)"
  shows "href_entry up m d = m(chapter_file d \<mapsto> cid d)"
    "chapter_key up d = chapter_file d"
proof -
  have t: "textUrl d \<noteq> []" using buildChapters_mem(1) [OF d] by simp
  have "final_segment (''/'' @ chapter_file d) = chapter_file d"
    using final_segment_append [of "chapter_file d" "[]"] chapter_file_ok(2) [of d] by simp
  then have k: "toLowerCase (final_segment (''/'' @ chapter_file d)) = chapter_file d"
    using url_chars_ok(3) [OF chapter_file_ok(1) [of d]] by simp
  have n: "chapter_file d \<noteq> []" using chapter_file_chars [of d] by simp
  show "href_entry up m d = m(chapter_file d \<mapsto> cid d)"
    unfolding href_entry_def pop_final_segment using t up k n by (simp add: Let_def)
  show "chapter_key up d = chapter_file d"
    unfolding chapter_key_def using up k by simp
qed

lemma normalize_file:
  "normalizeAdaHref up (chapter_file d) = Some (chapter_file d)"
proof -
  note c = chapter_file_ok [of d]
  have s: "strip_query_fragment (trim (chapter_file d)) = chapter_file d"
    using url_chars_ok(1,2) [OF c(1)] by simp
  have n: "chapter_file d \<noteq> []" using chapter_file_chars [of d] by simp
  show ?thesis
    unfolding normalize_form Let_def s
    using not_http_file [of d] final_segment_plain [OF c(2)] url_chars_ok(3) [OF c(1)] n
    by (simp add: non_empty_def)
qed

lemma normalize_textUrl:
  assumes d: "d \<in> set buildChapters"
    and up: "up (textUrl d) = Some (''/'' @ chapter_file d)"
  shows "normalizeAdaHref up (textUrl d) = Some (chapter_file d)"
proof -
  note u = buildChapters_mem(1) [OF d]
  have "set (textUrl d) \<subseteq> set url_chars"
    unfolding u using url_prefix_chars chapter_file_ok(1) [of d] by simp
  then have s: "strip_query_fragment (trim (textUrl d)) = textUrl d"
    using url_chars_ok(1,2) by simp
  have h: "is_http (textUrl d)" unfolding u by (rule is_http_url)
  have "final_segment (''/'' @ chapter_file d) = chapter_file d"
    using final_segment_append [of "chapter_file d" "[]"] chapter_file_ok(2) [of d] by simp
  then have k: "toLowerCase (final_segment (''/'' @ chapter_file d)) = chapter_file d"
    using url_chars_ok(3) [OF chapter_file_ok(1) [of d]] by simp
  have n: "chapter_file d \<noteq> []" using chapter_file_chars [of d] by simp
  show ?thesis
    unfolding normalize_form Let_def s using h up k n by (simp add: non_empty_def)
qed

text \<open>
  Claim C10. Let the URL parser give the path \<open>/ada{token}.htm\<close> for the text URL of every
  descriptor of \<open>buildChapters\<close>. Then for each descriptor the lower-cased final path segment
  of its text URL is its file name; the client's href index holds the descriptor's id under it;
  looking up the file name, or the whole text URL, through href normalization gives that id;
  and the keys of the 69 descriptors are pairwise distinct.
\<close>

theorem chapter_href_index:
  assumes up: "list_all (\<lambda>d. up (textUrl d) = Some (''/'' @ chapter_file d)) buildChapters"
  shows "list_all (\<lambda>d.
            chapter_key up d = chapter_file d \<and>
            buildChapterHrefMap up buildChapters (chapter_key up d) = Some (cid d) \<and>
            lookupChapterIdForHref up (buildChapterHrefMap up buildChapters) (chapter_file d)
              = Some (cid d) \<and>
            lookupChapterIdForHref up (buildChapterHrefMap up buildChapters) (textUrl d)
              = Some (cid d))
          buildChapters \<and>
         distinct (map (chapter_key up) buildChapters)"
proof -
  from up have u: "\<And>d. d \<in> set buildChapters \<Longrightarrow> up (textUrl d) = Some (''/'' @ chapter_file d)"
    by (simp add: list_all_iff)
  have m: "buildChapterHrefMap up buildChapters =
      Map.empty ++ map_of (rev (map (\<lambda>d. (chapter_file d, cid d)) buildChapters))"
    unfolding buildChapterHrefMap_def
    by (rule foldl_updates) (rule href_entry_catalog(1), assumption, rule u, assumption)
  have l: "\<And>d. d \<in> set buildChapters \<Longrightarrow>
      buildChapterHrefMap up buildChapters (chapter_file d) = Some (cid d)"
    unfolding m using map_of_rev_distinct [OF catalog_files_distinct] by simp
  have k: "\<And>d. d \<in> set buildChapters \<Longrightarrow> chapter_key up d = chapter_file d"
    by (rule href_entry_catalog(2), assumption, rule u, assumption)
  have nt: "\<And>d. d \<in> set buildChapters \<Longrightarrow>
      normalizeAdaHref up (textUrl d) = Some (chapter_file d)"
    by (rule normalize_textUrl, assumption, rule u, assumption)
  have a: "\<And>d. d \<in> set buildChapters \<Longrightarrow>
            chapter_key up d = chapter_file d \<and>
            buildChapterHrefMap up buildChapters (chapter_key up d) = Some (cid d) \<and>
            lookupChapterIdForHref up (buildChapterHrefMap up buildChapters) (chapter_file d)
              = Some (cid d) \<and>
            lookupChapterIdForHref up (buildChapterHrefMap up buildChapters) (textUrl d)
              = Some (cid d)"
    using k l buildChapters_mem(2) normalize_file nt
    by (simp add: lookupChapterIdForHref_def)
  have b: "map (chapter_key up) buildChapters = map chapter_file buildChapters"
    using k by simp
  have "distinct (map (chapter_key up) buildChapters)"
    unfolding b by (rule catalog_files_distinct)
  with a show ?thesis unfolding list_all_iff by blast
qed

lemma basic_url_path_catalog:
  "basic_url_path (''https://www.ada.auckland.ac.nz/'' @ chapter_file d) =
     Some (''/'' @ chapter_file d)"
proof -
  have f: "\<And>x. x \<in> set (chapter_file d) \<Longrightarrow> x \<noteq> CHR ''?'' \<and> x \<noteq> CHR ''#''"
    using url_chars_facts chapter_file_ok(1) [of d] unfolding list_all_iff by blast
  have "takeWhile (\<lambda>c. c \<noteq> CHR ''?'' \<and> c \<noteq> CHR ''#'') (chapter_file d) = chapter_file d"
    by (rule takeWhile_all) (simp add: f)
  then show ?thesis
    using is_http_url [of "chapter_file d"] by (simp add: basic_url_path_def Let_def)
qed

theorem chapter_href_index_witness:
  "list_all (\<lambda>d. basic_url_path (textUrl d) = Some (''/'' @ chapter_file d)) buildChapters \<and>
   chapter_key basic_url_path (mkChapter 2 1) = ''ada21.htm'' \<and>
   lookupChapterIdForHref basic_url_path (buildChapterHrefMap basic_url_path buildChapters)
     ''ada21.htm'' = Some ''p2c1'' \<and>
   lookupChapterIdForHref basic_url_path (buildChapterHrefMap basic_url_path buildChapters)
     ''https://www.ada.auckland.ac.nz/ada21.htm'' = Some ''p2c1''"
proof -
  have h: "list_all (\<lambda>d. basic_url_path (textUrl d) = Some (''/'' @ chapter_file d)) buildChapters"
    unfolding list_all_iff using buildChapters_mem(1) basic_url_path_catalog by simp
  have m: "mkChapter 2 1 \<in> set buildChapters" by code_simp
  have c: "chapter_file (mkChapter 2 1) = ''ada21.htm''" "cid (mkChapter 2 1) = ''p2c1''"
    "textUrl (mkChapter 2 1) = ''https://www.ada.auckland.ac.nz/ada21.htm''"
    unfolding chapter_file_def by code_simp+
  from chapter_href_index [OF h] m
  have "chapter_key basic_url_path (mkChapter 2 1) = chapter_file (mkChapter 2 1) \<and>
        lookupChapterIdForHref basic_url_path (buildChapterHrefMap basic_url_path buildChapters)
          (chapter_file (mkChapter 2 1)) = Some (cid (mkChapter 2 1)) \<and>
        lookupChapterIdForHref basic_url_path (buildChapterHrefMap basic_url_path buildChapters)
          (textUrl (mkChapter 2 1)) = Some (cid (mkChapter 2 1))"
    unfolding list_all_iff by blast
  with h show ?thesis unfolding c by blast
qed

section \<open>Properties of the snippet matcher\<close>

lemma starts_with_iff: "starts_with p s = (\<exists>v. s = p @ v)"
proof
  assume "starts_with p s"
  then have "s = p @ drop (length p) s"
    unfolding starts_with_def by (metis append_take_drop_id)
  then show "\<exists>v. s = p @ v" ..
next
  assume "\<exists>v. s = p @ v"
  then show "starts_with p s" by (auto simp: starts_with_def)
qed

lemma search_iff: "search m s = (\<exists>u v. s = u @ v \<and> m v)"
proof (induction s)
  case Nil
  show ?case by simp
next
  case (Cons c cs)
  show ?case
  proof
    assume "search m (c # cs)"
    then consider "m (c # cs)" | "search m cs" by auto
    then show "\<exists>u v. c # cs = u @ v \<and> m v"
    proof cases
      case 1
      then have "c # cs = [] @ (c # cs) \<and> m (c # cs)" by simp
      then show ?thesis by blast
    next
      case 2
      with Cons obtain u v where "cs = u @ v" "m v" by blast
      then have "c # cs = (c # u) @ v \<and> m v" by simp
      then show ?thesis by blast
    qed
  next
    assume "\<exists>u v. c # cs = u @ v \<and> m v"
    then obtain u v where e: "c # cs = u @ v" and m: "m v" by blast
    show "search m (c # cs)"
    proof (cases u)
      case Nil
      with e m have "m (c # cs)" by simp
      then show ?thesis by simp
    next
      case (Cons a u')
      with e have "cs = u' @ v" by simp
      with m Cons.IH show ?thesis by auto
    qed
  qed
qed

lemma contains_iff: "contains p s = (\<exists>u v. s = u @ p @ v)"
  unfolding contains_def search_iff starts_with_iff by blast

lemma contains_nonempty: "p \<noteq> [] \<Longrightarrow> contains p s \<Longrightarrow> s \<noteq> []"
  by (auto simp: contains_iff)

lemma collect_take:
  "collect room sibs =
     take room (takeWhile (\<lambda>e. normalize_str (textContent e) \<noteq> []) (filter is_elem sibs))"
proof (induction room sibs rule: collect.induct)
  case (1 room)
  show ?case by simp
next
  case (2 room s rest)
  then show ?case by simp
next
  case (3 room i t a cs rest)
  then show ?case by (cases room) auto
qed

lemma scan_step_inv:
  assumes np: "np \<noteq> []" and inv: "scan_inv np cs st"
  shows "scan_inv np (cs @ [c]) (scan_step np st c)"
proof (cases "contains np (normalize_str (textContent (fst c)))")
  case False
  then have "scan_step np st c = st" by (simp add: scan_step_def Let_def)
  with inv False show ?thesis by (auto simp: scan_inv_def split: option.splits)
next
  case True
  with np have ne: "normalize_str (textContent (fst c)) \<noteq> []" by (rule contains_nonempty)
  show ?thesis
  proof (cases "fst st")
    case None
    with inv have "snd st = None" by (simp add: scan_inv_def)
    with True ne have "scan_step np st c = (Some c, Some (length (normalize_str (textContent (fst c)))))"
      by (simp add: scan_step_def Let_def)
    with inv None True show ?thesis by (auto simp: scan_inv_def)
  next
    case (Some b)
    with inv have s: "snd st = Some (length (normalize_str (textContent (fst b))))"
      by (simp add: scan_inv_def)
    show ?thesis
    proof (cases "length (normalize_str (textContent (fst c))) < length (normalize_str (textContent (fst b)))")
      case l: True
      with True ne s have "scan_step np st c = (Some c, Some (length (normalize_str (textContent (fst c)))))"
        by (simp add: scan_step_def Let_def)
      with inv Some True l show ?thesis by (fastforce simp: scan_inv_def)
    next
      case l: False
      with s have "scan_step np st c = st" by (simp add: scan_step_def Let_def)
      with inv Some l show ?thesis by (auto simp: scan_inv_def)
    qed
  qed
qed

lemma scan_inv_foldl:
  "np \<noteq> [] \<Longrightarrow> scan_inv np cs (foldl (scan_step np) (None, None) cs)"
proof (induction cs rule: rev_induct)
  case Nil
  show ?case by (simp add: scan_inv_def)
next
  case (snoc c cs)
  then show ?case by (simp add: scan_step_inv)
qed

lemma snippet_of_phrase:
  assumes np: "normalize_str phrase \<noteq> []"
  shows "(if \<exists>c\<in>set (candidates d). contains (normalize_str phrase) (normalize_str (textContent (fst c)))
     then \<exists>best\<in>set (candidates d).
            contains (normalize_str phrase) (normalize_str (textContent (fst best))) \<and>
            (\<forall>c\<in>set (candidates d).
               contains (normalize_str phrase) (normalize_str (textContent (fst c))) \<longrightarrow>
               length (normalize_str (textContent (fst best)))
                 \<le> length (normalize_str (textContent (fst c)))) \<and>
            snippet_blocks phrase (Some d) =
              fst best # take 3 (takeWhile (\<lambda>e. normalize_str (textContent e) \<noteq> [])
                                   (filter is_elem (snd best))) \<and>
            findNoteSnippet outerHTML phrase (Some d) =
              join_lines (map outerHTML
                (fst best # take 3 (takeWhile (\<lambda>e. normalize_str (textContent e) \<noteq> [])
                                      (filter is_elem (snd best)))))
     else snippet_blocks phrase (Some d) = [] \<and> findNoteSnippet outerHTML phrase (Some d) = [])"
proof -
  let ?np = "normalize_str phrase"
  let ?r = "foldl (scan_step ?np) (None, None) (candidates d)"
  have inv: "scan_inv ?np (candidates d) ?r" using np by (rule scan_inv_foldl)
  have sb: "snippet_blocks phrase (Some d) =
      (case fst ?r of Some best \<Rightarrow> fst best # collect 3 (snd best) | None \<Rightarrow> [])"
    using np by (simp add: snippet_blocks_def Let_def)
  have main: "(if \<exists>c\<in>set (candidates d). contains ?np (normalize_str (textContent (fst c)))
     then \<exists>best\<in>set (candidates d).
            contains ?np (normalize_str (textContent (fst best))) \<and>
            (\<forall>c\<in>set (candidates d).
               contains ?np (normalize_str (textContent (fst c))) \<longrightarrow>
               length (normalize_str (textContent (fst best)))
                 \<le> length (normalize_str (textContent (fst c)))) \<and>
            snippet_blocks phrase (Some d) =
              fst best # take 3 (takeWhile (\<lambda>e. normalize_str (textContent e) \<noteq> [])
                                   (filter is_elem (snd best)))
     else snippet_blocks phrase (Some d) = [])"
  proof (cases "fst ?r")
    case None
    with inv have "\<forall>c\<in>set (candidates d). \<not> contains ?np (normalize_str (textContent (fst c)))"
      by (simp add: scan_inv_def)
    moreover from None sb have "snippet_blocks phrase (Some d) = []" by simp
    ultimately show ?thesis by auto
  next
    case (Some b)
    with inv have b: "b \<in> set (candidates d)" "contains ?np (normalize_str (textContent (fst b)))"
      "\<forall>c\<in>set (candidates d). contains ?np (normalize_str (textContent (fst c))) \<longrightarrow>
         length (normalize_str (textContent (fst b))) \<le> length (normalize_str (textContent (fst c)))"
      by (simp_all add: scan_inv_def)
    from Some sb have "snippet_blocks phrase (Some d) =
        fst b # take 3 (takeWhile (\<lambda>e. normalize_str (textContent e) \<noteq> []) (filter is_elem (snd b)))"
      by (simp add: collect_take)
    with b show ?thesis by auto
  qed
  have fs: "findNoteSnippet outerHTML phrase (Some d) =
      join_lines (map outerHTML (snippet_blocks phrase (Some d)))"
    by (simp add: findNoteSnippet_def)
  show ?thesis
  proof (cases "\<exists>c\<in>set (candidates d). contains ?np (normalize_str (textContent (fst c)))")
    case True
    with main obtain best where "best \<in> set (candidates d)"
      "contains ?np (normalize_str (textContent (fst best)))"
      "\<forall>c\<in>set (candidates d).
             contains ?np (normalize_str (textContent (fst c))) \<longrightarrow>
             length (normalize_str (textContent (fst best)))
               \<le> length (normalize_str (textContent (fst c)))"
      "snippet_blocks phrase (Some d) =
            fst best # take 3 (takeWhile (\<lambda>e. normalize_str (textContent e) \<noteq> [])
                                 (filter is_elem (snd best)))"
      by auto
    then show ?thesis using True fs by auto
  next
    case False
    with main have "snippet_blocks phrase (Some d) = []" by simp
    with False fs show ?thesis by simp
  qed
qed

text \<open>
  Claim C4, amended. For a phrase whose normalized text is not empty and a loaded annotations
  tree: where some candidate block (\<open>p\<close>, \<open>div\<close>, \<open>li\<close>, \<open>dd\<close>) has a normalized text that
  contains the normalized phrase as a substring, the matcher selects such a candidate of minimal
  normalized-text length, and the snippet is the markup of that block concatenated (as
  \<open>join\<close> does, a line feed between two markups) with the markup of at most three siblings
  that immediately follow it (\<open>nextElementSibling\<close>), stopping before the first one whose
  normalized text is empty; where no candidate contains the phrase, the snippet is empty. For
  a phrase whose normalized text is empty the snippet is empty, whatever the tree holds.
\<close>

theorem findNoteSnippet_spec:
  "contains p s = (\<exists>u v. s = u @ p @ v) \<and>
   (normalize_str phrase = [] \<longrightarrow>
      snippet_blocks phrase (Some d) = [] \<and> findNoteSnippet outerHTML phrase (Some d) = []) \<and>
   (normalize_str phrase \<noteq> [] \<longrightarrow>
    (if \<exists>c\<in>set (candidates d). contains (normalize_str phrase) (normalize_str (textContent (fst c)))
     then \<exists>best\<in>set (candidates d).
            contains (normalize_str phrase) (normalize_str (textContent (fst best))) \<and>
            (\<forall>c\<in>set (candidates d).
               contains (normalize_str phrase) (normalize_str (textContent (fst c))) \<longrightarrow>
               length (normalize_str (textContent (fst best)))
                 \<le> length (normalize_str (textContent (fst c)))) \<and>
            snippet_blocks phrase (Some d) =
              fst best # take 3 (takeWhile (\<lambda>e. normalize_str (textContent e) \<noteq> [])
                                   (filter is_elem (snd best))) \<and>
            findNoteSnippet outerHTML phrase (Some d) =
              join_lines (map outerHTML
                (fst best # take 3 (takeWhile (\<lambda>e. normalize_str (textContent e) \<noteq> [])
                                      (filter is_elem (snd best)))))
     else snippet_blocks phrase (Some d) = [] \<and> findNoteSnippet outerHTML phrase (Some d) = []))"
proof (intro conjI impI)
  show "contains p s = (\<exists>u v. s = u @ p @ v)" by (rule contains_iff)
next
  assume "normalize_str phrase = []"
  then show "snippet_blocks phrase (Some d) = []" by (simp add: snippet_blocks_def)
next
  assume "normalize_str phrase = []"
  then show "findNoteSnippet outerHTML phrase (Some d) = []"
    by (simp add: findNoteSnippet_def snippet_blocks_def)
next
  assume "normalize_str phrase \<noteq> []"
  then show "(if \<exists>c\<in>set (candidates d). contains (normalize_str phrase) (normalize_str (textContent (fst c)))
     then \<exists>best\<in>set (candidates d).
            contains (normalize_str phrase) (normalize_str (textContent (fst best))) \<and>
            (\<forall>c\<in>set (candidates d).
               contains (normalize_str phrase) (normalize_str (textContent (fst c))) \<longrightarrow>
               length (normalize_str (textContent (fst best)))
                 \<le> length (normalize_str (textContent (fst c)))) \<and>
            snippet_blocks phrase (Some d) =
              fst best # take 3 (takeWhile (\<lambda>e. normalize_str (textContent e) \<noteq> [])
                                   (filter is_elem (snd best))) \<and>
            findNoteSnippet outerHTML phrase (Some d) =
              join_lines (map outerHTML
                (fst best # take 3 (takeWhile (\<lambda>e. normalize_str (textContent e) \<noteq> [])
                                      (filter is_elem (snd best)))))
     else snippet_blocks phrase (Some d) = [] \<and> findNoteSnippet outerHTML phrase (Some d) = [])"
    by (rule snippet_of_phrase)
qed

theorem findNoteSnippet_spec_witness:
  "normalize_str ''Mount Tabor'' \<noteq> [] \<and>
   (\<exists>c\<in>set (candidates notes_example).
       contains (normalize_str ''Mount Tabor'') (normalize_str (textContent (fst c)))) \<and>
   snippet_blocks ''Mount Tabor'' (Some notes_example) \<noteq> [] \<and>
   map ident (snippet_blocks ''Mount Tabor'' (Some notes_example)) = [2, 3, 4] \<and>
   normalize_str ''  '' = [] \<and>
   findNoteSnippet textContent ''  '' (Some notes_example) = []"
proof -
  have n: "normalize_str ''Mount Tabor'' \<noteq> []" by code_simp
  have c: "list_ex (\<lambda>c. contains (normalize_str ''Mount Tabor'') (normalize_str (textContent (fst c))))
      (candidates notes_example)" by code_simp
  then have e: "\<exists>c\<in>set (candidates notes_example).
       contains (normalize_str ''Mount Tabor'') (normalize_str (textContent (fst c)))"
    by (simp add: list_ex_iff)
  have v: "map ident (snippet_blocks ''Mount Tabor'' (Some notes_example)) = [2, 3, 4]"
    by code_simp
  have z: "normalize_str ''  '' = []" by code_simp
  note s = findNoteSnippet_spec [of _ _ "''Mount Tabor''" notes_example]
  note s0 = findNoteSnippet_spec [of _ _ "''  ''" notes_example textContent]
  from s n e have "snippet_blocks ''Mount Tabor'' (Some notes_example) \<noteq> []" by auto
  moreover from s0 z have "findNoteSnippet textContent ''  '' (Some notes_example) = []" by blast
  ultimately show ?thesis using n e v z by blast
qed

text \<open>
  A phrase with empty normalized text is contained in the text of every block, yet the matcher
  returns no snippet for it.
\<close>

theorem findNoteSnippet_empty_phrase:
  "(\<exists>c\<in>set (candidates (Elem 0 ''div'' [] [Elem 1 ''p'' [] [Text ''a note'']])).
       contains (normalize_str '''') (normalize_str (textContent (fst c)))) \<and>
   snippet_blocks '''' (Some (Elem 0 ''div'' [] [Elem 1 ''p'' [] [Text ''a note'']])) = [] \<and>
   findNoteSnippet textContent '''' (Some (Elem 0 ''div'' [] [Elem 1 ''p'' [] [Text ''a note'']])) = []"
proof -
  have c: "list_ex (\<lambda>c. contains (normalize_str '''') (normalize_str (textContent (fst c))))
      (candidates (Elem 0 ''div'' [] [Elem 1 ''p'' [] [Text ''a note'']]))" by code_simp
  have s: "snippet_blocks '''' (Some (Elem 0 ''div'' [] [Elem 1 ''p'' [] [Text ''a note'']])) = []"
    by code_simp
  from c s show ?thesis by (simp add: list_ex_iff findNoteSnippet_def)
qed

section \<open>What the transforms preserve\<close>

lemma elems_is_elem: "e \<in> set (elems n) \<Longrightarrow> is_elem e"
  by (induction n) auto

lemma every_elem_Nil [simp]: "every_elem q []"
  by (simp add: every_elem_def all_elems_def)

lemma every_elem_append [simp]: "every_elem q (xs @ ys) = (every_elem q xs \<and> every_elem q ys)"
  by (simp add: every_elem_def all_elems_def)

lemma every_elem_Text [simp]: "every_elem q (Text s # ns) = every_elem q ns"
  by (simp add: every_elem_def all_elems_def)

lemma every_elem_Elem [simp]:
  "every_elem q (Elem i t a cs # ns) = (q t a \<and> every_elem q cs \<and> every_elem q ns)"
  by (simp add: every_elem_def all_elems_def)

lemma every_elem_iff: "every_elem q ns = (\<forall>e\<in>set (all_elems ns). q (tag e) (attrs e))"
  by (simp add: every_elem_def list_all_iff)

lemma all_elems_sub: "e \<in> set (elems n) \<Longrightarrow> set (elems e) \<subseteq> set (elems n)"
proof (induction n)
  case (Text s)
  then show ?case by simp
next
  case (Elem i t a cs)
  from Elem.prems consider "e = Elem i t a cs" | c where "c \<in> set cs" "e \<in> set (elems c)"
    by auto
  then show ?case
  proof cases
    case 1
    then show ?thesis by simp
  next
    case 2
    with Elem.IH have "set (elems e) \<subseteq> set (elems c)" by blast
    with 2(1) show ?thesis by auto
  qed
qed

lemma every_elem_inner:
  assumes e: "e \<in> set (all_elems ns)" and q: "every_elem q ns"
  shows "every_elem q [e]"
proof -
  from e obtain n where n: "n \<in> set ns" "e \<in> set (elems n)" by (auto simp: all_elems_def)
  from n(2) have "set (elems e) \<subseteq> set (elems n)" by (rule all_elems_sub)
  with n(1) have "set (all_elems [e]) \<subseteq> set (all_elems ns)" by (auto simp: all_elems_def)
  with q show ?thesis unfolding every_elem_iff by blast
qed

lemma childNodes_sub: "set (all_elems (childNodes n)) \<subseteq> set (elems n)"
  by (cases n) (auto simp: all_elems_def)

lemma every_elem_children:
  assumes e: "e \<in> set (all_elems ns)" and q: "every_elem q ns"
  shows "every_elem q (childNodes e)"
proof -
  from e q have "every_elem q [e]" by (rule every_elem_inner)
  then show ?thesis using childNodes_sub [of e] unfolding every_elem_iff
    by (auto simp: all_elems_def)
qed

lemma every_elem_single: "every_elem q ns = (\<forall>n\<in>set ns. every_elem q [n])"
  unfolding every_elem_iff by (auto simp: all_elems_def)

lemma every_elem_map:
  "(\<And>c. c \<in> set cs \<Longrightarrow> every_elem q [c] \<Longrightarrow> every_elem q [f c]) \<Longrightarrow> every_elem q cs \<Longrightarrow>
   every_elem q (map f cs)"
  unfolding every_elem_single [of q cs] every_elem_single [of q "map f cs"] by simp

lemma upd_label [simp]: "ident (upd i g n) = ident n" "tag (upd i g n) = tag n"
  "attrs (upd i g n) = attrs n" "is_elem (upd i g n) = is_elem n"
  by (cases n; simp)+

lemma repl_label [simp]: "ident (repl i w n) = ident n" "tag (repl i w n) = tag n"
  "attrs (repl i w n) = attrs n" "is_elem (repl i w n) = is_elem n"
  by (cases n; simp)+

lemma every_elem_upd:
  assumes g: "\<And>cs. every_elem q cs \<Longrightarrow> every_elem q (g cs)"
  shows "every_elem q [n] \<Longrightarrow> every_elem q [upd i g n]"
proof (induction n)
  case (Text s)
  then show ?case by simp
next
  case (Elem j t a cs)
  from Elem.prems have q: "q t a" and c: "every_elem q cs" by simp_all
  show ?case
  proof (cases "j = i")
    case True
    with q g [OF c] show ?thesis by simp
  next
    case False
    have "every_elem q (map (upd i g) cs)"
      by (rule every_elem_map) (use Elem.IH c in auto)
    with q False show ?thesis by simp
  qed
qed

lemma every_elem_upd_children:
  assumes g: "\<And>cs. every_elem q cs \<Longrightarrow> every_elem q (g cs)"
    and c: "every_elem q (childNodes n)"
  shows "every_elem q (childNodes (upd i g n))"
proof (cases n)
  case (Text s)
  then show ?thesis by simp
next
  case (Elem j t a cs)
  show ?thesis
  proof (cases "j = i")
    case True
    with Elem c g show ?thesis by simp
  next
    case False
    have "every_elem q (map (upd i g) cs)"
      by (rule every_elem_map) (use c Elem every_elem_upd [OF g] in auto)
    with Elem False show ?thesis by simp
  qed
qed

lemma every_elem_repl:
  assumes w: "every_elem q [w]"
  shows "every_elem q [n] \<Longrightarrow> every_elem q [repl i w n]"
proof (induction n)
  case (Text s)
  then show ?case by simp
next
  case (Elem j t a cs)
  from Elem.prems have q: "q t a" and c: "every_elem q cs" by simp_all
  have "every_elem q (map (\<lambda>c. if is_elem c \<and> ident c = i then w else repl i w c) cs)"
    by (rule every_elem_map) (use Elem.IH c w in auto)
  with q show ?case by simp
qed

lemma every_elem_repl_children:
  assumes w: "every_elem q [w]" and c: "every_elem q (childNodes n)"
  shows "every_elem q (childNodes (repl i w n))"
proof (cases n)
  case (Text s)
  then show ?thesis by simp
next
  case (Elem j t a cs)
  have "every_elem q (map (\<lambda>c. if is_elem c \<and> ident c = i then w else repl i w c) cs)"
    by (rule every_elem_map) (use c Elem w every_elem_repl [OF w] in auto)
  with Elem show ?thesis by simp
qed

lemma find_node_Some: "find_node i f = Some e \<Longrightarrow> e \<in> set (all_elems f) \<and> ident e = i"
  unfolding find_node_def by (auto simp: find_Some_iff)

lemma store_elem:
  assumes "roots st \<noteq> []" "e \<in> set (all_elems (roots st))"
  shows "e = hd (roots st) \<or> e \<in> set (all_elems (childNodes (hd (roots st)) @ tl (roots st)))"
proof (cases "roots st")
  case Nil
  with assms show ?thesis by simp
next
  case (Cons r rs)
  with assms show ?thesis by (cases r) (auto simp: all_elems_def)
qed

lemma store_ok_children:
  assumes ok: "store_ok q k st" and f: "find_node i (roots st) = Some e"
  shows "every_elem q (childNodes e)"
proof -
  from ok have r: "roots st \<noteq> []" and c: "every_elem q (childNodes (hd (roots st)))"
    and t: "every_elem q (tl (roots st))" by (simp_all add: store_ok_def)
  from f have "e \<in> set (all_elems (roots st))" by (simp add: find_node_Some)
  with r consider "e = hd (roots st)"
    | "e \<in> set (all_elems (childNodes (hd (roots st)) @ tl (roots st)))"
    using store_elem by blast
  then show ?thesis
  proof cases
    case 1
    with c show ?thesis by simp
  next
    case 2
    moreover from c t have "every_elem q (childNodes (hd (roots st)) @ tl (roots st))" by simp
    ultimately show ?thesis by (rule every_elem_children)
  qed
qed

lemma store_ok_inner:
  assumes ok: "store_ok q k st" and f: "find_node i (roots st) = Some e" and n: "i \<noteq> k"
  shows "every_elem q [e]"
proof -
  from ok have r: "roots st \<noteq> []" and c: "every_elem q (childNodes (hd (roots st)))"
    and t: "every_elem q (tl (roots st))" and k: "ident (hd (roots st)) = k"
    by (simp_all add: store_ok_def)
  from f have e: "e \<in> set (all_elems (roots st))" "ident e = i" by (simp_all add: find_node_Some)
  with n k have "e \<noteq> hd (roots st)" by auto
  with r e(1) have "e \<in> set (all_elems (childNodes (hd (roots st)) @ tl (roots st)))"
    using store_elem by blast
  moreover from c t have "every_elem q (childNodes (hd (roots st)) @ tl (roots st))" by simp
  ultimately show ?thesis by (rule every_elem_inner)
qed

lemma store_ok_map:
  assumes ok: "store_ok q k st"
    and i: "\<And>n. ident (f n) = ident n" and ie: "\<And>n. is_elem (f n) = is_elem n"
    and c: "\<And>n. every_elem q (childNodes n) \<Longrightarrow> every_elem q (childNodes (f n))"
    and e: "\<And>n. every_elem q [n] \<Longrightarrow> every_elem q [f n]"
    and m: "fresh st \<le> m"
  shows "store_ok q k (st\<lparr>roots := map f (roots st), fresh := m\<rparr>)"
proof -
  from ok have r: "roots st \<noteq> []" and ch: "every_elem q (childNodes (hd (roots st)))"
    and t: "every_elem q (tl (roots st))" and k: "ident (hd (roots st)) = k" "k < fresh st"
    and el: "is_elem (hd (roots st))"
    by (simp_all add: store_ok_def)
  have "every_elem q (map f (tl (roots st)))" by (rule every_elem_map) (use e t in auto)
  with r ch k c i m el ie show ?thesis by (simp add: store_ok_def hd_map map_tl)
qed

lemma store_ok_upd:
  assumes ok: "store_ok q k st"
    and g: "\<And>cs. every_elem q cs \<Longrightarrow> every_elem q (g cs)"
    and m: "fresh st \<le> m"
  shows "store_ok q k (st\<lparr>roots := map (upd i g) (roots st), fresh := m\<rparr>)"
  by (rule store_ok_map [OF ok _ _ _ _ m])
     (simp_all add: every_elem_upd [OF g] every_elem_upd_children [OF g])

lemma store_ok_upd_roots:
  assumes ok: "store_ok q k st"
    and g: "\<And>cs. every_elem q cs \<Longrightarrow> every_elem q (g cs)"
  shows "store_ok q k (st\<lparr>roots := map (upd i g) (roots st)\<rparr>)"
  using store_ok_upd [OF ok g, where m = "fresh st" and i = i] by simp

lemma store_ok_create:
  assumes ok: "store_ok q k st" and q: "q tg []"
  shows "store_ok q k (snd (createElement tg st))"
  using ok q by (auto simp: createElement_def store_ok_def)

lemma store_ok_fragment:
  assumes ok: "store_ok q k st" and q: "q ''#document-fragment'' []"
  shows "store_ok q k (snd (createDocumentFragment st))"
  unfolding createDocumentFragment_def using ok q by (rule store_ok_create)

lemma store_ok_move:
  assumes ok: "store_ok q k st"
  shows "store_ok q k (move_children src dst st)"
proof -
  show "store_ok q k (move_children src dst st)"
  proof (cases "find_node src (roots st)")
    case None
    with ok show ?thesis by (simp add: move_children_def)
  next
    case (Some s)
    with ok have c: "every_elem q (childNodes s)" by (rule store_ok_children)
    have 1: "store_ok q k (st\<lparr>roots := map (upd src (\<lambda>cs. [])) (roots st)\<rparr>)"
      by (rule store_ok_upd_roots [OF ok]) simp
    have "store_ok q k (st\<lparr>roots := map (upd src (\<lambda>cs. [])) (roots st)\<rparr>
        \<lparr>roots := map (upd dst (\<lambda>cs. cs @ childNodes s))
           (roots (st\<lparr>roots := map (upd src (\<lambda>cs. [])) (roots st)\<rparr>))\<rparr>)"
      by (rule store_ok_upd_roots [OF 1]) (simp add: c)
    with Some show ?thesis by (simp add: move_children_def)
  qed
qed

lemma store_ok_appendNew:
  assumes ok: "store_ok q k st" and q: "q tg []"
  shows "store_ok q k (appendNew tg p st)"
proof -
  have "store_ok q k (st\<lparr>roots := map (upd p (\<lambda>cs. cs @ [Elem (fresh st) tg [] []])) (roots st),
      fresh := Suc (fresh st)\<rparr>)"
    by (rule store_ok_upd [OF ok]) (simp_all add: q)
  then show "store_ok q k (appendNew tg p st)" by (simp add: appendNew_def)
qed

lemma store_ok_appendText:
  assumes ok: "store_ok q k st"
  shows "store_ok q k (appendText s p st)"
proof -
  have "store_ok q k (st\<lparr>roots := map (upd p (\<lambda>cs. cs @ [Text s])) (roots st)\<rparr>)"
    by (rule store_ok_upd_roots [OF ok]) simp
  then show "store_ok q k (appendText s p st)" by (simp add: appendText_def)
qed

lemma store_ok_replaceWith:
  assumes ok: "store_ok q k st" and n: "new \<noteq> k"
  shows "store_ok q k (replaceWith old new st)"
proof -
  show "store_ok q k (replaceWith old new st)"
  proof (cases "find_node old (roots st)")
    case None
    with ok show ?thesis by (simp add: replaceWith_def)
  next
    case t: (Some t)
    show ?thesis
    proof (cases "find_node new (roots st)")
      case None
      with ok t show ?thesis by (simp add: replaceWith_def)
    next
      case w: (Some w)
      show ?thesis
      proof (cases "old \<in> set (map ident (filter is_elem (roots st)))")
        case True
        with ok t w show ?thesis by (simp add: replaceWith_def)
      next
        case False
        from ok have r: "roots st \<noteq> []" and k: "ident (hd (roots st)) = k" "k < fresh st"
          and c: "every_elem q (childNodes (hd (roots st)))" and tl: "every_elem q (tl (roots st))"
          and e: "is_elem (hd (roots st))"
          by (simp_all add: store_ok_def)
        from r obtain d rs where d: "roots st = d # rs" by (cases "roots st") auto
        from False d k e have ok': "old \<noteq> k" by auto
        have qw: "every_elem q [w]" by (rule store_ok_inner [OF ok w n])
        have qt: "every_elem q [t]" by (rule store_ok_inner [OF ok t ok'])
        have f: "filter (\<lambda>r. \<not> (is_elem r \<and> ident r = new)) (roots st) =
            d # filter (\<lambda>r. \<not> (is_elem r \<and> ident r = new)) rs"
          using d k n by simp
        from tl d have "\<forall>n\<in>set rs. every_elem q [n]"
          by (simp add: every_elem_single [of q rs])
        then have "every_elem q (filter (\<lambda>r. \<not> (is_elem r \<and> ident r = new)) rs)"
          by (simp add: every_elem_single [of q "filter _ rs"])
        then have "every_elem q (map (repl old w) (filter (\<lambda>r. \<not> (is_elem r \<and> ident r = new)) rs))"
          by (intro every_elem_map every_elem_repl [OF qw])
        moreover have "every_elem q (childNodes (repl old w d))"
          using c d by (intro every_elem_repl_children [OF qw]) simp
        ultimately have "store_ok q k (st\<lparr>roots := map (repl old w)
            (filter (\<lambda>r. \<not> (is_elem r \<and> ident r = new)) (roots st)) @ [t]\<rparr>)"
          using k d qt e unfolding f by (simp add: store_ok_def)
        with t w False show ?thesis by (simp add: replaceWith_def)
      qed
    qed
  qed
qed

lemma fresh_ops [simp]:
  "fresh (move_children src dst st) = fresh st"
  "fresh (appendNew tg p st) = Suc (fresh st)"
  "fresh (appendText s p st) = fresh st"
  "fresh (replaceWith old new st) = fresh st"
  "fresh (snd (createElement tg st)) = Suc (fresh st)"
  "fst (createElement tg st) = fresh st"
  "fresh (snd (createDocumentFragment st)) = Suc (fresh st)"
  "fst (createDocumentFragment st) = fresh st"
  by (simp_all add: move_children_def appendNew_def appendText_def replaceWith_def
      createElement_def createDocumentFragment_def split: option.splits)

lemma fresh_flattenRow: "fresh st \<le> fresh (flattenRow w st ir)"
  by (simp add: flattenRow_def Let_def split_def split: option.splits)

lemma store_ok_flattenRow:
  assumes ok: "store_ok q k st" and br: "q ''br'' []" and fr: "q ''#document-fragment'' []"
  shows "store_ok q k (flattenRow w st ir)"
proof (cases "find_node (snd ir) (roots st)")
  case None
  with ok show ?thesis by (simp add: flattenRow_def)
next
  case (Some tr)
  let ?cells = "querySelectorAll ''td'' tr"
  show ?thesis
  proof (cases "length ?cells < 2")
    case True
    with ok Some show ?thesis by (simp add: flattenRow_def)
  next
    case False
    let ?m = "ident (?cells ! 0)" and ?c = "ident (?cells ! 1)"
    let ?st1 = "snd (createDocumentFragment st)"
    let ?st2 = "move_children ?m (fresh st) ?st1"
    let ?st3 = "snd (createDocumentFragment ?st2)"
    let ?st4 = "move_children ?c (Suc (fresh st)) ?st3"
    have 1: "store_ok q k ?st1" using ok fr by (rule store_ok_fragment)
    have 2: "store_ok q k ?st2" by (rule store_ok_move [OF 1])
    have 3: "store_ok q k ?st3" using 2 fr by (rule store_ok_fragment)
    have 4: "store_ok q k ?st4" by (rule store_ok_move [OF 3])
    have a: "store_ok q k (move_children (Suc (fresh st)) w
        (appendNew ''br'' w (move_children (fresh st) w ?st4)))"
      by (intro store_ok_move store_ok_appendNew 4 br)
    have b: "store_ok q k (move_children (Suc (fresh st)) w ?st4)"
      by (intro store_ok_move 4)
    have c: "store_ok q k (move_children (Suc (fresh st)) w
        (appendNew ''br'' w (move_children (fresh st) w (appendNew ''br'' w ?st4))))"
      by (intro store_ok_move store_ok_appendNew 4 br)
    have d: "store_ok q k (move_children (Suc (fresh st)) w (appendText '' '' w ?st4))"
      by (intro store_ok_move store_ok_appendText 4)
    from Some False a b c d show ?thesis
      by (simp add: flattenRow_def Let_def split_def)
  qed
qed

lemma foldl_flattenRow:
  assumes br: "q ''br'' []" and fr: "q ''#document-fragment'' []"
  shows "store_ok q k st \<Longrightarrow>
    store_ok q k (foldl (flattenRow w) st rs) \<and> fresh st \<le> fresh (foldl (flattenRow w) st rs)"
proof (induction rs arbitrary: st)
  case Nil
  then show ?case by simp
next
  case (Cons r rs)
  from Cons.prems have "store_ok q k (flattenRow w st r)" using br fr by (rule store_ok_flattenRow)
  from Cons.IH [OF this] fresh_flattenRow [of st w r] show ?case by auto
qed

lemma store_ok_flattenTable:
  assumes ok: "store_ok q k st" and br: "q ''br'' []" and fr: "q ''#document-fragment'' []"
    and p: "q ''p'' []"
  shows "store_ok q k (flattenTable st t)"
proof (cases "find_node t (roots st)")
  case None
  with ok show ?thesis by (simp add: flattenTable_def)
next
  case (Some table)
  let ?trs = "querySelectorAll ''tr'' table"
  show ?thesis
  proof (cases "?trs = [] \<or> \<not> list_all twoCols ?trs")
    case True
    with ok Some show ?thesis by (auto simp: flattenTable_def Let_def)
  next
    case False
    let ?st1 = "snd (createElement ''p'' st)"
    let ?st2 = "foldl (flattenRow (fresh st)) ?st1 (enumerate 0 (map ident ?trs))"
    have 1: "store_ok q k ?st1" by (rule store_ok_create [OF ok p])
    from foldl_flattenRow [OF br fr 1] have 2: "store_ok q k ?st2" by blast
    from ok have "k < fresh st" by (simp add: store_ok_def)
    then have "fresh st \<noteq> k" by simp
    with 2 have "store_ok q k (replaceWith t (fresh st) ?st2)" by (rule store_ok_replaceWith)
    with Some False show ?thesis by (simp add: flattenTable_def Let_def split_def)
  qed
qed

lemma ident_le_foldr: "e \<in> set es \<Longrightarrow> ident e \<le> foldr max (map ident es) 0"
  by (induction es) auto

lemma store_ok_flatten:
  assumes c: "every_elem q (childNodes root)" and br: "q ''br'' []"
    and fr: "q ''#document-fragment'' []" and p: "q ''p'' []"
  shows "every_elem q (childNodes (flattenMarginTables root))"
proof -
  let ?st0 = "\<lparr>roots = [root], fresh = fresh_id root\<rparr>"
  show ?thesis
  proof (cases root)
    case (Text s)
    then show ?thesis
      by (simp add: flattenMarginTables_def querySelectorAll_def descendants_def)
  next
    case (Elem i t a cs)
    then have "root \<in> set (elems root)" by simp
    from ident_le_foldr [OF this] have "ident root < fresh_id root" by (simp add: fresh_id_def)
  with c Elem have 0: "store_ok q (ident root) ?st0" by (simp add: store_ok_def)
  have "store_ok q (ident root) st \<Longrightarrow> store_ok q (ident root) (foldl flattenTable st ts)" for st ts
  proof (induction ts arbitrary: st)
    case Nil
    then show ?case by simp
  next
    case (Cons t ts)
    from Cons.prems br fr p have "store_ok q (ident root) (flattenTable st t)"
      by (rule store_ok_flattenTable)
    then show ?case using Cons.IH by simp
  qed
  from this [OF 0] have "store_ok q (ident root)
      (foldl flattenTable ?st0 (map ident (querySelectorAll ''table'' root)))" .
  then show ?thesis
    by (auto simp: flattenMarginTables_def Let_def store_ok_def split: list.splits)
  qed
qed

lemma every_elem_remove:
  "every_elem q [n] \<Longrightarrow> every_elem q [remove_where p n]"
proof (induction n)
  case (Text s)
  then show ?case by simp
next
  case (Elem i t a cs)
  from Elem.prems have q: "q t a" and c: "\<forall>n\<in>set cs. every_elem q [n]"
    by (simp_all add: every_elem_single [of q cs])
  have "every_elem q (map (remove_where p) (filter (\<lambda>c. \<not> (is_elem c \<and> p c)) cs))"
    unfolding every_elem_single [of q "map _ _"] using c Elem.IH by auto
  with q show ?case by simp
qed

lemma every_elem_remove_children:
  assumes "every_elem q (childNodes n)"
  shows "every_elem q (childNodes (remove_where p n))"
proof (cases n)
  case (Text s)
  then show ?thesis by simp
next
  case (Elem i t a cs)
  with assms have c: "\<forall>n\<in>set cs. every_elem q [n]" by (simp add: every_elem_single [of q cs])
  have "every_elem q (map (remove_where p) (filter (\<lambda>c. \<not> (is_elem c \<and> p c)) cs))"
    unfolding every_elem_single [of q "map _ _"] using c every_elem_remove by auto
  with Elem show ?thesis by simp
qed

lemma removed_tags:
  "\<not> P (tag n) \<Longrightarrow> every_elem (\<lambda>t a. \<not> P t) [remove_where (\<lambda>e. P (tag e)) n]"
proof (induction n)
  case (Text s)
  show ?case by simp
next
  case (Elem i t a cs)
  have "every_elem (\<lambda>t a. \<not> P t)
      (map (remove_where (\<lambda>e. P (tag e))) (filter (\<lambda>c. \<not> (is_elem c \<and> P (tag c))) cs))"
    unfolding every_elem_single [of _ "map _ _"]
  proof (intro ballI)
    fix n assume "n \<in> set (map (remove_where (\<lambda>e. P (tag e))) (filter (\<lambda>c. \<not> (is_elem c \<and> P (tag c))) cs))"
    then obtain c where c: "c \<in> set cs" "\<not> (is_elem c \<and> P (tag c))"
      "n = remove_where (\<lambda>e. P (tag e)) c" by auto
    show "every_elem (\<lambda>t a. \<not> P t) [n]"
    proof (cases "is_elem c")
      case True
      with c Elem.IH show ?thesis by auto
    next
      case False
      then obtain s where "c = Text s" by (cases c) auto
      with c show ?thesis by simp
    qed
  qed
  with Elem.prems show ?case by simp
qed

lemma removed_tags_children:
  "every_elem (\<lambda>t a. \<not> P t) (childNodes (remove_where (\<lambda>e. P (tag e)) n))"
proof (cases n)
  case (Text s)
  then show ?thesis by simp
next
  case (Elem i t a cs)
  have "every_elem (\<lambda>t a. \<not> P t)
      (map (remove_where (\<lambda>e. P (tag e))) (filter (\<lambda>c. \<not> (is_elem c \<and> P (tag c))) cs))"
    unfolding every_elem_single [of _ "map _ _"]
  proof (intro ballI)
    fix n assume "n \<in> set (map (remove_where (\<lambda>e. P (tag e))) (filter (\<lambda>c. \<not> (is_elem c \<and> P (tag c))) cs))"
    then obtain c where c: "c \<in> set cs" "\<not> (is_elem c \<and> P (tag c))"
      "n = remove_where (\<lambda>e. P (tag e)) c" by auto
    show "every_elem (\<lambda>t a. \<not> P t) [n]"
    proof (cases "is_elem c")
      case True
      with c removed_tags show ?thesis by auto
    next
      case False
      then obtain s where "c = Text s" by (cases c) auto
      with c show ?thesis by simp
    qed
  qed
  with Elem show ?thesis by simp
qed

lemma every_elem_map_attrs:
  assumes f: "\<And>e. q (tag e) (attrs e) \<Longrightarrow> q' (tag e) (f e)"
  shows "every_elem q [n] \<Longrightarrow> every_elem q' [map_attrs f n]"
proof (induction n)
  case (Text s)
  show ?case by simp
next
  case (Elem i t a cs)
  from Elem.prems have q: "q t a" and c: "\<forall>n\<in>set cs. every_elem q [n]"
    by (simp_all add: every_elem_single [of q cs])
  have "every_elem q' (map (map_attrs f) cs)"
    unfolding every_elem_single [of q' "map _ _"] using c Elem.IH by auto
  moreover from q f [of "Elem i t a cs"] have "q' t (f (Elem i t a cs))" by simp
  ultimately show ?case by simp
qed

lemma every_elem_on_descendants:
  assumes f: "\<And>e. q (tag e) (attrs e) \<Longrightarrow> q' (tag e) (f e)"
    and c: "every_elem q (childNodes n)"
  shows "every_elem q' (childNodes (on_descendants f n))"
proof (cases n)
  case (Text s)
  then show ?thesis by (simp add: on_descendants_def)
next
  case (Elem i t a cs)
  with c have c': "\<forall>n\<in>set cs. every_elem q [n]" by (simp add: every_elem_single [of q cs])
  have "every_elem q' (map (map_attrs f) cs)"
    unfolding every_elem_single [of q' "map _ _"]
    using c' every_elem_map_attrs [of q q' f, OF f] by auto
  with Elem show ?thesis by (simp add: on_descendants_def)
qed

lemma setAttribute_names [simp]: "fst ` set (setAttribute k v a) = insert k (fst ` set a)"
proof (cases "k \<in> set (map fst a)")
  case True
  have "map fst (map (\<lambda>kv. if fst kv = k then (k, v) else kv) a) = map fst a"
    by (induction a) auto
  then have "fst ` set (map (\<lambda>kv. if fst kv = k then (k, v) else kv) a) = fst ` set a"
    by (metis set_map)
  with True show ?thesis by (auto simp: setAttribute_def)
next
  case False
  then show ?thesis by (simp add: setAttribute_def)
qed

lemma removeAttribute_names [simp]: "fst ` set (removeAttribute k a) = fst ` set a - {k}"
  by (auto simp: removeAttribute_def)

lemma stripLegacyStyling_unstyled:
  "every_elem unstyled (childNodes (stripLegacyStyling root))"
  unfolding stripLegacyStyling_def
proof (rule every_elem_on_descendants)
  show "every_elem (\<lambda>t a. \<not> (t = ''style'' \<or> t = ''link''))
      (childNodes (remove_where (\<lambda>el. tag el = ''style'' \<or> tag el = ''link'') root))"
    by (rule removed_tags_children)
next
  fix e
  assume "\<not> (tag e = ''style'' \<or> tag e = ''link'')"
  then show "unstyled (tag e) (removeAttribute ''style'' (attrs e))"
    by (simp add: unstyled_def)
qed

section \<open>Identities in the store\<close>

lemma ids_simps [simp]:
  "ids (Text s) = []"
  "ids (Elem j t a cs) = j # ids_f cs"
  "ids_f [] = []"
  "ids_f (n # ns) = ids n @ ids_f ns"
  "ids_f (xs @ ys) = ids_f xs @ ids_f ys"
  by (simp_all add: ids_def ids_f_def all_elems_def map_concat comp_def)

lemma ids_f_set: "set (ids_f f) = (\<Union>n\<in>set f. set (ids n))"
  by (induction f) auto

lemma ids_upd_same [simp]: "ident (upd i g n) = ident n"
  by (cases n) simp_all

lemma upd_id: "i \<notin> set (ids n) \<Longrightarrow> upd i g n = n"
proof (induction n)
  case (Text s)
  show ?case by simp
next
  case (Elem j t a cs)
  then have "\<And>c. c \<in> set cs \<Longrightarrow> upd i g c = c" by (auto simp: ids_f_set)
  then have "map (upd i g) cs = cs" by (simp add: map_idI)
  with Elem.prems show ?case by simp
qed

lemma upd_id_f: "i \<notin> set (ids_f f) \<Longrightarrow> map (upd i g) f = f"
  by (rule map_idI) (auto simp: ids_f_set upd_id)

lemma elems_ids_sub: "s \<in> set (elems n) \<Longrightarrow> set (ids s) \<subseteq> set (ids n)"
  using all_elems_sub [of s n] by (auto simp: ids_def)

text \<open>The identities an update moves: an equation between multisets, without subtraction.\<close>

lemma upd_mset:
  "distinct (ids n) \<Longrightarrow> i \<in> set (ids n) \<Longrightarrow>
   \<exists>s. s \<in> set (elems n) \<and> ident s = i \<and>
       mset (ids (upd i g n)) + mset (ids_f (childNodes s)) =
       mset (ids n) + mset (ids_f (g (childNodes s)))"
proof (induction n)
  case (Text s)
  then show ?case by simp
next
  case (Elem j t a cs)
  show ?case
  proof (cases "j = i")
    case True
    have "Elem j t a cs \<in> set (elems (Elem j t a cs))" by simp
    moreover have "mset (ids (upd i g (Elem j t a cs))) + mset (ids_f (childNodes (Elem j t a cs))) =
       mset (ids (Elem j t a cs)) + mset (ids_f (g (childNodes (Elem j t a cs))))"
      using True by simp
    ultimately show ?thesis using True by (metis ident.simps(1))
  next
    case False
    with Elem.prems(2) have "i \<in> set (ids_f cs)" by simp
    then obtain ch where ch: "ch \<in> set cs" "i \<in> set (ids ch)" by (auto simp: ids_f_set)
    then obtain pre post where sp: "cs = pre @ ch # post" by (meson split_list)
    from Elem.prems(1) sp have d: "distinct (ids_f pre @ ids ch @ ids_f post)" by simp
    with ch(2) have np: "i \<notin> set (ids_f pre)" and nq: "i \<notin> set (ids_f post)" by auto
    from d have dc: "distinct (ids ch)" by simp
    from Elem.IH [OF ch(1) dc ch(2)] obtain s where s: "s \<in> set (elems ch)" "ident s = i"
      "mset (ids (upd i g ch)) + mset (ids_f (childNodes s)) =
       mset (ids ch) + mset (ids_f (g (childNodes s)))" by blast
    have m: "map (upd i g) cs = pre @ upd i g ch # post"
      unfolding sp using np nq by (simp add: upd_id_f)
    have "s \<in> set (elems (Elem j t a cs))" using s(1) ch(1) by auto
    moreover have "mset (ids (upd i g (Elem j t a cs))) + mset (ids_f (childNodes s)) =
       mset (ids (Elem j t a cs)) + mset (ids_f (g (childNodes s)))"
    proof -
      have l: "ids (upd i g (Elem j t a cs)) = j # ids_f pre @ ids (upd i g ch) @ ids_f post"
        using False m by simp
      have r: "ids (Elem j t a cs) = j # ids_f pre @ ids ch @ ids_f post" by (simp add: sp)
      have "mset (ids_f pre) + (mset (ids (upd i g ch)) + mset (ids_f (childNodes s))) +
            mset (ids_f post) =
          mset (ids_f pre) + (mset (ids ch) + mset (ids_f (g (childNodes s)))) + mset (ids_f post)"
        by (simp only: s(3))
      then show ?thesis unfolding l r by (simp add: ac_simps)
    qed
    ultimately show ?thesis using s(2) by blast
  qed
qed

lemma upd_mset_f:
  assumes d: "distinct (ids_f f)" and i: "i \<in> set (ids_f f)"
  shows "\<exists>s. s \<in> set (all_elems f) \<and> ident s = i \<and>
       mset (ids_f (map (upd i g) f)) + mset (ids_f (childNodes s)) =
       mset (ids_f f) + mset (ids_f (g (childNodes s)))"
proof -
  from i obtain n where n: "n \<in> set f" "i \<in> set (ids n)" by (auto simp: ids_f_set)
  then obtain pre post where sp: "f = pre @ n # post" by (meson split_list)
  from d sp have d': "distinct (ids_f pre @ ids n @ ids_f post)" by simp
  with n(2) have np: "i \<notin> set (ids_f pre)" and nq: "i \<notin> set (ids_f post)" by auto
  from d' have dn: "distinct (ids n)" by simp
  from upd_mset [OF dn n(2), of g] obtain s where s: "s \<in> set (elems n)" "ident s = i"
    "mset (ids (upd i g n)) + mset (ids_f (childNodes s)) =
     mset (ids n) + mset (ids_f (g (childNodes s)))" by blast
  have m: "map (upd i g) f = pre @ upd i g n # post"
    unfolding sp using np nq by (simp add: upd_id_f)
  have "mset (ids_f pre) + (mset (ids (upd i g n)) + mset (ids_f (childNodes s))) +
        mset (ids_f post) =
      mset (ids_f pre) + (mset (ids n) + mset (ids_f (g (childNodes s)))) + mset (ids_f post)"
    by (simp only: s(3))
  then have "mset (ids_f (map (upd i g) f)) + mset (ids_f (childNodes s)) =
       mset (ids_f f) + mset (ids_f (g (childNodes s)))"
    unfolding m unfolding sp by (simp add: ac_simps)
  moreover from s(1) n(1) have "s \<in> set (all_elems f)" by (auto simp: all_elems_def)
  ultimately show ?thesis using s(2) by blast
qed

lemma find_unique:
  assumes d: "distinct (ids_f f)" and x: "x \<in> set (all_elems f)"
  shows "find_node (ident x) f = Some x"
proof -
  from x obtain k where k: "k < length (all_elems f)" "all_elems f ! k = x"
    by (auto simp: in_set_conv_nth)
  have "\<forall>j<k. ident (all_elems f ! j) \<noteq> ident x"
  proof (intro allI impI)
    fix j assume j: "j < k"
    from j k have l: "j < length (ids_f f)" "k < length (ids_f f)" by (simp_all add: ids_f_def)
    with d j have "ids_f f ! j \<noteq> ids_f f ! k"
      using nth_eq_iff_index_eq [of "ids_f f" j k] by simp
    with j k show "ident (all_elems f ! j) \<noteq> ident x" by (simp add: ids_f_def)
  qed
  with k show ?thesis unfolding find_node_def find_Some_iff by blast
qed

lemma find_node_iff:
  "distinct (ids_f f) \<Longrightarrow> (find_node i f = Some x) = (x \<in> set (all_elems f) \<and> ident x = i)"
  using find_unique find_node_Some by blast

lemma find_node_None: "(find_node i f = None) = (i \<notin> set (ids_f f))"
  unfolding find_node_def find_None_iff ids_f_def by auto

lemma distinct_mset_sub: "mset ys \<subseteq># mset xs \<Longrightarrow> distinct xs \<Longrightarrow> distinct ys"
proof -
  assume s: "mset ys \<subseteq># mset xs" and d: "distinct xs"
  have "\<And>a. count (mset ys) a \<le> 1"
  proof -
    fix a
    from s have "count (mset ys) a \<le> count (mset xs) a" by (rule mset_subset_eq_count)
    also from d have "\<dots> \<le> 1" by (simp add: distinct_count_atmost_1)
    finally show "count (mset ys) a \<le> 1" .
  qed
  then show "distinct ys"
    unfolding distinct_count_atmost_1 by (metis count_mset_0_iff le_neq_implies_less less_one nat_less_le)
qed

lemma store_inv_sub:
  assumes "store_inv st" "mset (ids_f f) \<subseteq># mset (ids_f (roots st))" "fresh st \<le> m"
  shows "store_inv (st\<lparr>roots := f, fresh := m\<rparr>)"
proof -
  from assms(2) have "set (ids_f f) \<subseteq> set (ids_f (roots st))"
    using set_mset_mono [of "mset (ids_f f)" "mset (ids_f (roots st))"] by simp
  with assms show ?thesis
    by (fastforce simp: store_inv_def intro: distinct_mset_sub)
qed

lemma clear_mset:
  assumes d: "distinct (ids_f f)" and s: "find_node src f = Some s"
  shows "mset (ids_f (map (upd src (\<lambda>cs. [])) f)) + mset (ids_f (childNodes s)) = mset (ids_f f)"
proof -
  from s have "src \<in> set (ids_f f)" using find_node_None [of src f] by auto
  from upd_mset_f [OF d this, of "\<lambda>cs. []"] obtain s' where s': "s' \<in> set (all_elems f)"
    "ident s' = src"
    "mset (ids_f (map (upd src (\<lambda>cs. [])) f)) + mset (ids_f (childNodes s')) = mset (ids_f f)"
    by auto
  from s'(1,2) d have "find_node src f = Some s'" by (simp add: find_node_iff)
  with s have "s' = s" by simp
  with s'(3) show ?thesis by simp
qed

lemma append_mset:
  assumes d: "distinct (ids_f f)"
  shows "mset (ids_f (map (upd dst (\<lambda>cs. cs @ new)) f)) =
     (if dst \<in> set (ids_f f) then mset (ids_f f) + mset (ids_f new) else mset (ids_f f))"
proof (cases "dst \<in> set (ids_f f)")
  case False
  then show ?thesis by (simp add: upd_id_f)
next
  case True
  from upd_mset_f [OF d True, of "\<lambda>cs. cs @ new"] obtain s where
    "mset (ids_f (map (upd dst (\<lambda>cs. cs @ new)) f)) + mset (ids_f (childNodes s)) =
     mset (ids_f f) + mset (ids_f (childNodes s @ new))" by blast
  then have "mset (ids_f (map (upd dst (\<lambda>cs. cs @ new)) f)) + mset (ids_f (childNodes s)) =
     (mset (ids_f f) + mset (ids_f new)) + mset (ids_f (childNodes s))" by (simp add: ac_simps)
  then have "mset (ids_f (map (upd dst (\<lambda>cs. cs @ new)) f)) = mset (ids_f f) + mset (ids_f new)"
    by (rule add_right_imp_eq)
  with True show ?thesis by simp
qed

lemma move_mset:
  assumes d: "distinct (ids_f (roots st))"
  shows "mset (ids_f (roots (move_children src dst st))) \<subseteq># mset (ids_f (roots st))"
proof (cases "find_node src (roots st)")
  case None
  then show ?thesis by (simp add: move_children_def)
next
  case (Some s)
  let ?f1 = "map (upd src (\<lambda>cs. [])) (roots st)"
  from clear_mset [OF d Some]
  have c: "mset (ids_f ?f1) + mset (ids_f (childNodes s)) = mset (ids_f (roots st))" .
  then have sub: "mset (ids_f ?f1) \<subseteq># mset (ids_f (roots st))"
    by (metis mset_subset_eq_add_left)
  then have d1: "distinct (ids_f ?f1)" using d by (rule distinct_mset_sub)
  have "mset (ids_f (map (upd dst (\<lambda>cs. cs @ childNodes s)) ?f1)) \<subseteq># mset (ids_f (roots st))"
  proof (cases "dst \<in> set (ids_f ?f1)")
    case True
    then show ?thesis unfolding append_mset [OF d1] using c by simp
  next
    case False
    then show ?thesis unfolding append_mset [OF d1] using sub by simp
  qed
  with Some show ?thesis by (simp add: move_children_def)
qed

lemma store_inv_roots:
  "store_inv st \<Longrightarrow> mset (ids_f f) \<subseteq># mset (ids_f (roots st)) \<Longrightarrow> store_inv (st\<lparr>roots := f\<rparr>)"
  using store_inv_sub [of st f "fresh st"] by simp

lemma store_inv_move: "store_inv st \<Longrightarrow> store_inv (move_children src dst st)"
proof -
  assume i: "store_inv st"
  then have d: "distinct (ids_f (roots st))" by (simp add: store_inv_def)
  have "store_inv (st\<lparr>roots := roots (move_children src dst st)\<rparr>)"
    using i move_mset [OF d] by (rule store_inv_roots)
  moreover have "st\<lparr>roots := roots (move_children src dst st)\<rparr> = move_children src dst st"
    by (simp add: move_children_def split: option.splits)
  ultimately show ?thesis by simp
qed

lemma store_inv_appendText: "store_inv st \<Longrightarrow> store_inv (appendText s p st)"
proof -
  assume i: "store_inv st"
  then have d: "distinct (ids_f (roots st))" by (simp add: store_inv_def)
  have "mset (ids_f (map (upd p (\<lambda>cs. cs @ [Text s])) (roots st))) = mset (ids_f (roots st))"
    by (simp add: append_mset [OF d])
  then show ?thesis using store_inv_roots [OF i] by (simp add: appendText_def)
qed

lemma store_inv_appendNew: "store_inv st \<Longrightarrow> store_inv (appendNew tg p st)"
proof -
  assume i: "store_inv st"
  then have d: "distinct (ids_f (roots st))" and b: "\<forall>i\<in>set (ids_f (roots st)). i < fresh st"
    by (simp_all add: store_inv_def)
  let ?f = "map (upd p (\<lambda>cs. cs @ [Elem (fresh st) tg [] []])) (roots st)"
  have m: "mset (ids_f ?f) \<subseteq># mset (ids_f (roots st) @ [fresh st])"
    by (simp add: append_mset [OF d])
  from b have "fresh st \<notin> set (ids_f (roots st))" by auto
  with d have "distinct (ids_f (roots st) @ [fresh st])" by simp
  with m have "distinct (ids_f ?f)" by (rule distinct_mset_sub)
  moreover from m have "set (ids_f ?f) \<subseteq> set (ids_f (roots st) @ [fresh st])"
    using set_mset_mono [of "mset (ids_f ?f)" "mset (ids_f (roots st) @ [fresh st])"] by simp
  with b have "\<forall>i\<in>set (ids_f ?f). i < Suc (fresh st)" by fastforce
  ultimately show ?thesis by (simp add: store_inv_def appendNew_def)
qed

lemma store_inv_create: "store_inv st \<Longrightarrow> store_inv (snd (createElement tg st))"
  by (fastforce simp: store_inv_def createElement_def)

lemma store_inv_fragment: "store_inv st \<Longrightarrow> store_inv (snd (createDocumentFragment st))"
  unfolding createDocumentFragment_def by (rule store_inv_create)

lemma ids_elem: "is_elem n \<Longrightarrow> ids n = ident n # ids_f (childNodes n)"
  by (cases n) simp_all

lemma child_ids:
  assumes "c \<in> set cs"
  shows "set (ids c) \<subseteq> set (ids_f cs)" "is_elem c \<Longrightarrow> ident c \<in> set (ids_f cs)"
proof -
  show "set (ids c) \<subseteq> set (ids_f cs)" using assms by (auto simp: ids_f_set)
  assume "is_elem c"
  then have "ident c \<in> set (ids c)" by (simp add: ids_elem)
  with assms show "ident c \<in> set (ids_f cs)" by (auto simp: ids_f_set)
qed

lemma children_ids_sub: "set (ids_f (childNodes n)) \<subseteq> set (ids n)"
  by (cases n) auto

lemma repl_id: "i \<notin> set (ids_f (childNodes n)) \<Longrightarrow> repl i w n = n"
proof (induction n)
  case (Text s)
  show ?case by simp
next
  case (Elem j t a cs)
  have "\<And>c. c \<in> set cs \<Longrightarrow> (if is_elem c \<and> ident c = i then w else repl i w c) = c"
  proof -
    fix c assume c: "c \<in> set cs"
    with Elem.prems have n: "i \<notin> set (ids c)" using child_ids(1) [OF c] by auto
    then have "\<not> (is_elem c \<and> ident c = i)" by (auto simp: ids_elem)
    moreover from n have "i \<notin> set (ids_f (childNodes c))" using children_ids_sub [of c] by auto
    with Elem.IH c have "repl i w c = c" by blast
    ultimately show "(if is_elem c \<and> ident c = i then w else repl i w c) = c" by auto
  qed
  then show ?case by (simp add: map_idI)
qed

lemma repl_id_f:
  "i \<notin> set (ids_f (concat (map childNodes f))) \<Longrightarrow> map (repl i w) f = f"
proof (rule map_idI)
  fix n assume "i \<notin> set (ids_f (concat (map childNodes f)))" "n \<in> set f"
  then have "i \<notin> set (ids_f (childNodes n))" by (auto simp: ids_f_set)
  then show "repl i w n = n" by (rule repl_id)
qed

lemma repl_children_id:
  assumes "i \<notin> set (ids_f cs)"
  shows "map (\<lambda>c. if is_elem c \<and> ident c = i then w else repl i w c) cs = cs"
proof (rule map_idI)
  fix c assume c: "c \<in> set cs"
  with assms have n: "i \<notin> set (ids c)" using child_ids(1) [OF c] by auto
  then have "\<not> (is_elem c \<and> ident c = i)" by (auto simp: ids_elem)
  moreover from n have "i \<notin> set (ids_f (childNodes c))" using children_ids_sub [of c] by auto
  then have "repl i w c = c" by (rule repl_id)
  ultimately show "(if is_elem c \<and> ident c = i then w else repl i w c) = c" by auto
qed

lemma repl_mset:
  "distinct (ids n) \<Longrightarrow> i \<in> set (ids_f (childNodes n)) \<Longrightarrow>
   \<exists>T. T \<in> set (all_elems (childNodes n)) \<and> ident T = i \<and>
       mset (ids (repl i w n)) + mset (ids T) = mset (ids n) + mset (ids w)"
proof (induction n)
  case (Text s)
  then show ?case by simp
next
  case (Elem j t a cs)
  from Elem.prems(2) obtain ch where ch: "ch \<in> set cs" "i \<in> set (ids ch)"
    by (auto simp: ids_f_set)
  then obtain pre post where sp: "cs = pre @ ch # post" by (meson split_list)
  from Elem.prems(1) sp have d: "distinct (ids_f pre @ ids ch @ ids_f post)" by simp
  with ch(2) have np: "i \<notin> set (ids_f pre)" and nq: "i \<notin> set (ids_f post)" by auto
  from d have dc: "distinct (ids ch)" by simp
  from ch(2) have el: "is_elem ch" by (cases ch) auto
  let ?F = "\<lambda>c. if is_elem c \<and> ident c = i then w else repl i w c"
  have m: "map ?F cs = pre @ ?F ch # post"
    unfolding sp using repl_children_id [OF np] repl_children_id [OF nq] by simp
  have "\<exists>T. T \<in> set (elems ch) \<and> ident T = i \<and>
      mset (ids (?F ch)) + mset (ids T) = mset (ids ch) + mset (ids w)"
  proof (cases "ident ch = i")
    case True
    with el have "ch \<in> set (elems ch)" by (cases ch) auto
    with True el show ?thesis by auto
  next
    case False
    with ch(2) el have "i \<in> set (ids_f (childNodes ch))" by (simp add: ids_elem)
    from Elem.IH [OF ch(1) dc this] obtain T where "T \<in> set (all_elems (childNodes ch))"
      "ident T = i" "mset (ids (repl i w ch)) + mset (ids T) = mset (ids ch) + mset (ids w)"
      by blast
    moreover have "set (all_elems (childNodes ch)) \<subseteq> set (elems ch)" by (rule childNodes_sub)
    ultimately show ?thesis using False by auto
  qed
  then obtain T where T: "T \<in> set (elems ch)" "ident T = i"
    "mset (ids (?F ch)) + mset (ids T) = mset (ids ch) + mset (ids w)" by blast
  have l: "ids (repl i w (Elem j t a cs)) = j # ids_f pre @ ids (?F ch) @ ids_f post"
    using m by simp
  have r: "ids (Elem j t a cs) = j # ids_f pre @ ids ch @ ids_f post" by (simp add: sp)
  have "mset (ids_f pre) + (mset (ids (?F ch)) + mset (ids T)) + mset (ids_f post) =
        mset (ids_f pre) + (mset (ids ch) + mset (ids w)) + mset (ids_f post)"
    by (simp only: T(3))
  then have "mset (ids (repl i w (Elem j t a cs))) + mset (ids T) =
      mset (ids (Elem j t a cs)) + mset (ids w)"
    unfolding l r by (simp add: ac_simps)
  moreover from T(1) ch(1) have "T \<in> set (all_elems (childNodes (Elem j t a cs)))"
    by (auto simp: all_elems_def)
  ultimately show ?case using T(2) by blast
qed

lemma repl_mset_f:
  assumes d: "distinct (ids_f f)" and i: "i \<in> set (ids_f (concat (map childNodes f)))"
  shows "\<exists>T. T \<in> set (all_elems f) \<and> ident T = i \<and>
       mset (ids_f (map (repl i w) f)) + mset (ids T) = mset (ids_f f) + mset (ids w)"
proof -
  from i obtain n where n: "n \<in> set f" "i \<in> set (ids_f (childNodes n))"
    by (auto simp: ids_f_set)
  then obtain pre post where sp: "f = pre @ n # post" by (meson split_list)
  from d sp have d': "distinct (ids_f pre @ ids n @ ids_f post)" by simp
  from n(2) have inn: "i \<in> set (ids n)" using children_ids_sub [of n] by auto
  with d' have np: "i \<notin> set (ids_f pre)" and nq: "i \<notin> set (ids_f post)" by auto
  have "\<And>g. i \<notin> set (ids_f g) \<Longrightarrow> map (repl i w) g = g"
  proof (rule map_idI)
    fix g x assume "i \<notin> set (ids_f g)" "x \<in> set g"
    then have "i \<notin> set (ids x)" by (auto simp: ids_f_set)
    then have "i \<notin> set (ids_f (childNodes x))" using children_ids_sub [of x] by auto
    then show "repl i w x = x" by (rule repl_id)
  qed
  with np nq have m: "map (repl i w) f = pre @ repl i w n # post" unfolding sp by simp
  from d' have dn: "distinct (ids n)" by simp
  from repl_mset [OF dn n(2), of w] obtain T where T: "T \<in> set (all_elems (childNodes n))"
    "ident T = i" "mset (ids (repl i w n)) + mset (ids T) = mset (ids n) + mset (ids w)"
    by blast
  have "mset (ids_f pre) + (mset (ids (repl i w n)) + mset (ids T)) + mset (ids_f post) =
        mset (ids_f pre) + (mset (ids n) + mset (ids w)) + mset (ids_f post)"
    by (simp only: T(3))
  then have "mset (ids_f (map (repl i w) f)) + mset (ids T) = mset (ids_f f) + mset (ids w)"
    unfolding m unfolding sp by (simp add: ac_simps)
  moreover from T(1) n(1) have "T \<in> set (all_elems f)"
    using childNodes_sub [of n] by (auto simp: all_elems_def)
  ultimately show ?thesis using T(2) by blast
qed

lemma elems_cases:
  "e \<in> set (elems n) \<Longrightarrow> e = n \<or> e \<in> set (all_elems (childNodes n))"
  by (cases n) (auto simp: all_elems_def)

lemma elems_mset_sub: "T \<in> set (elems n) \<Longrightarrow> mset (ids T) \<subseteq># mset (ids n)"
proof (induction n)
  case (Text s)
  then show ?case by simp
next
  case (Elem j t a cs)
  from Elem.prems consider "T = Elem j t a cs" | c where "c \<in> set cs" "T \<in> set (elems c)"
    by auto
  then show ?case
  proof cases
    case 1
    then show ?thesis by simp
  next
    case 2
    with Elem.IH have s: "mset (ids T) \<subseteq># mset (ids c)" by blast
    from 2(1) obtain pre post where "cs = pre @ c # post" by (meson split_list)
    then have "mset (ids (Elem j t a cs)) = mset (ids c) + (mset (ids_f pre) + mset (ids_f post) + {#j#})"
      by (simp add: ac_simps)
    with s show ?thesis by (metis mset_subset_eq_add_left subset_mset.order_trans)
  qed
qed

lemma filter_root_mset:
  assumes d: "distinct (ids_f f)" and w: "W \<in> set f" "is_elem W" "ident W = new"
  shows "mset (ids_f (filter (\<lambda>r. \<not> (is_elem r \<and> ident r = new)) f)) + mset (ids W) =
      mset (ids_f f)"
    and "set (all_elems f) \<subseteq>
      set (all_elems (filter (\<lambda>r. \<not> (is_elem r \<and> ident r = new)) f)) \<union> set (elems W)"
proof -
  from w(1) obtain pre post where sp: "f = pre @ W # post" by (meson split_list)
  from d sp have d': "distinct (ids_f pre @ ids W @ ids_f post)" by simp
  from w(2,3) have nw: "new \<in> set (ids W)" by (simp add: ids_elem)
  with d' have np: "new \<notin> set (ids_f pre)" and nq: "new \<notin> set (ids_f post)" by auto
  have k: "\<And>g. new \<notin> set (ids_f g) \<Longrightarrow> filter (\<lambda>r. \<not> (is_elem r \<and> ident r = new)) g = g"
  proof -
    fix g assume "new \<notin> set (ids_f g)"
    then have "\<And>r. r \<in> set g \<Longrightarrow> \<not> (is_elem r \<and> ident r = new)"
      using child_ids(2) by blast
    then show "filter (\<lambda>r. \<not> (is_elem r \<and> ident r = new)) g = g" by (simp add: filter_id_conv)
  qed
  from k [OF np] k [OF nq] w(2,3)
  have e: "filter (\<lambda>r. \<not> (is_elem r \<and> ident r = new)) f = pre @ post" unfolding sp by simp
  show "mset (ids_f (filter (\<lambda>r. \<not> (is_elem r \<and> ident r = new)) f)) + mset (ids W) =
      mset (ids_f f)" unfolding e unfolding sp by (simp add: ac_simps)
  show "set (all_elems f) \<subseteq>
      set (all_elems (filter (\<lambda>r. \<not> (is_elem r \<and> ident r = new)) f)) \<union> set (elems W)"
    unfolding e unfolding sp by (auto simp: all_elems_def)
qed

lemma store_inv_replaceWith:
  assumes i: "store_inv st"
    and r: "\<And>W. find_node new (roots st) = Some W \<Longrightarrow> W \<in> set (roots st)"
  shows "store_inv (replaceWith old new st)"
proof (cases "find_node old (roots st)")
  case None
  with i show ?thesis by (simp add: replaceWith_def)
next
  case t: (Some T)
  show ?thesis
  proof (cases "find_node new (roots st)")
    case None
    with i t show ?thesis by (simp add: replaceWith_def)
  next
    case w: (Some W)
    show ?thesis
    proof (cases "old \<in> set (map ident (filter is_elem (roots st)))")
      case True
      with i t w show ?thesis by (simp add: replaceWith_def)
    next
      case False
      let ?f = "filter (\<lambda>r. \<not> (is_elem r \<and> ident r = new)) (roots st)"
      from i have d: "distinct (ids_f (roots st))" by (simp add: store_inv_def)
      from w have W: "W \<in> set (all_elems (roots st))" "ident W = new" by (simp_all add: find_node_Some)
      then have We: "is_elem W" using elems_is_elem by (auto simp: all_elems_def)
      from r [OF w] have Wr: "W \<in> set (roots st)" .
      note fm = filter_root_mset [OF d Wr We W(2)]
      from fm(1) have "mset (ids_f ?f) \<subseteq># mset (ids_f (roots st))"
        by (metis mset_subset_eq_add_left)
      then have df: "distinct (ids_f ?f)" using d by (rule distinct_mset_sub)
      from t have T: "T \<in> set (all_elems (roots st))" "ident T = old" by (simp_all add: find_node_Some)
      have "mset (ids_f (map (repl old W) ?f @ [T])) \<subseteq># mset (ids_f (roots st))"
      proof (cases "old \<in> set (ids_f (concat (map childNodes ?f)))")
        case True
        from repl_mset_f [OF df True, of W] obtain T' where T': "T' \<in> set (all_elems ?f)"
          "ident T' = old"
          "mset (ids_f (map (repl old W) ?f)) + mset (ids T') = mset (ids_f ?f) + mset (ids W)"
          by blast
        from T'(1) have "T' \<in> set (all_elems (roots st))" by (auto simp: all_elems_def)
        with T'(2) d have "find_node old (roots st) = Some T'" by (simp add: find_node_iff)
        with t have "T' = T" by simp
        with T'(3) fm(1) show ?thesis by simp
      next
        case n: False
        then have m: "map (repl old W) ?f = ?f" by (rule repl_id_f)
        have "T \<notin> set (all_elems ?f)"
        proof
          assume "T \<in> set (all_elems ?f)"
          then obtain x where x: "x \<in> set ?f" "T \<in> set (elems x)" by (auto simp: all_elems_def)
          from x(2) consider "T = x" | "T \<in> set (all_elems (childNodes x))"
            using elems_cases by blast
          then show False
          proof cases
            case 1
            with x(1) T(2) False elems_is_elem [OF x(2)] show False by auto
          next
            case 2
            then have "old \<in> set (ids_f (childNodes x))" using T(2) by (auto simp: ids_f_def)
            with x(1) n show False by (auto simp: ids_f_set)
          qed
        qed
        with T(1) fm(2) have "T \<in> set (elems W)" by blast
        then have "mset (ids T) \<subseteq># mset (ids W)" by (rule elems_mset_sub)
        then have "mset (ids_f ?f) + mset (ids T) \<subseteq># mset (ids_f ?f) + mset (ids W)" by simp
        with fm(1) m show ?thesis by simp
      qed
      then have "store_inv (st\<lparr>roots := map (repl old W) ?f @ [T]\<rparr>)"
        by (rule store_inv_roots [OF i])
      with t w False show ?thesis by (simp add: replaceWith_def)
    qed
  qed
qed

lemma flattenRow_cells:
  assumes "find_node r (roots st) = Some tr" "2 \<le> length (querySelectorAll ''td'' tr)"
  shows "flattenRow w st (idx, r) =
     row_moves w idx (ident (querySelectorAll ''td'' tr ! 0)) (ident (querySelectorAll ''td'' tr ! 1))
       (trim (textContent (querySelectorAll ''td'' tr ! 0)) \<noteq> []) st"
  using assms by (simp add: flattenRow_def row_moves_def Let_def split_def)

lemma flattenRow_skip:
  "find_node r (roots st) = None \<or>
   (\<exists>tr. find_node r (roots st) = Some tr \<and> length (querySelectorAll ''td'' tr) < 2) \<Longrightarrow>
   flattenRow w st (idx, r) = st"
  by (auto simp: flattenRow_def)

lemma flattenTable_rows:
  assumes "find_node t (roots st) = Some T" "querySelectorAll ''tr'' T \<noteq> []"
    "list_all twoCols (querySelectorAll ''tr'' T)"
  shows "flattenTable st t =
     replaceWith t (fresh st)
       (foldl (flattenRow (fresh st)) (snd (createElement ''p'' st))
          (enumerate 0 (map ident (querySelectorAll ''tr'' T))))"
  using assms by (simp add: flattenTable_def Let_def split_def)

lemma flattenTable_skip:
  "find_node t (roots st) = None \<or>
   (\<exists>T. find_node t (roots st) = Some T \<and>
        (querySelectorAll ''tr'' T = [] \<or> \<not> list_all twoCols (querySelectorAll ''tr'' T))) \<Longrightarrow>
   flattenTable st t = st"
  by (auto simp: flattenTable_def Let_def)

lemma is_root_ops:
  assumes "is_root i st"
  shows "is_root i (move_children src dst st)" "is_root i (appendNew tg p st)"
    "is_root i (appendText s p st)" "is_root i (snd (createElement tg st))"
    "is_root i (snd (createDocumentFragment st))"
  using assms
  by (auto simp: is_root_def move_children_def appendNew_def appendText_def createElement_def
      createDocumentFragment_def split: option.splits)

lemma is_root_created: "is_root (fresh st) (snd (createElement tg st))"
  by (simp add: is_root_def createElement_def)

lemma row_moves_inv:
  assumes "store_inv st"
  shows "store_inv (row_moves w idx m c h st)"
  using assms unfolding row_moves_def Let_def
  by (auto intro!: store_inv_move store_inv_appendNew store_inv_appendText store_inv_fragment)

lemma row_moves_root: "is_root i st \<Longrightarrow> is_root i (row_moves w idx m c h st)"
  unfolding row_moves_def Let_def by (auto intro!: is_root_ops)

lemma flattenRow_cases:
  "flattenRow w st (idx, r) = st \<or> (\<exists>m c h. flattenRow w st (idx, r) = row_moves w idx m c h st)"
proof (cases "find_node r (roots st)")
  case None
  then show ?thesis by (simp add: flattenRow_skip)
next
  case (Some tr)
  show ?thesis
  proof (cases "2 \<le> length (querySelectorAll ''td'' tr)")
    case True
    from flattenRow_cells [OF Some True] show ?thesis by blast
  next
    case False
    with Some show ?thesis by (simp add: flattenRow_skip)
  qed
qed

lemma flattenRow_inv:
  assumes "store_inv st"
  shows "store_inv (flattenRow w st ir)"
  using flattenRow_cases [of w st "fst ir" "snd ir"] assms row_moves_inv by auto

lemma flattenRow_root: "is_root i st \<Longrightarrow> is_root i (flattenRow w st ir)"
  using flattenRow_cases [of w st "fst ir" "snd ir"] row_moves_root by auto

lemma foldl_flattenRow_inv:
  "store_inv st \<Longrightarrow> is_root i st \<Longrightarrow>
   store_inv (foldl (flattenRow w) st rs) \<and> is_root i (foldl (flattenRow w) st rs)"
  by (induction rs arbitrary: st) (simp_all add: flattenRow_inv flattenRow_root)

lemma is_root_find:
  assumes i: "store_inv st" and r: "is_root w st" and f: "find_node w (roots st) = Some W"
  shows "W \<in> set (roots st)"
proof -
  from r obtain x where x: "x \<in> set (roots st)" "is_elem x" "ident x = w"
    by (auto simp: is_root_def)
  from x(2) have "x \<in> set (elems x)" by (cases x) simp_all
  with x(1) have "x \<in> set (all_elems (roots st))" by (auto simp: all_elems_def)
  with i x(3) have "find_node w (roots st) = Some x" by (simp add: store_inv_def find_node_iff)
  with f x(1) show ?thesis by simp
qed

lemma flattenTable_inv:
  assumes i: "store_inv st"
  shows "store_inv (flattenTable st t)"
proof (cases "find_node t (roots st) = None \<or>
   (\<exists>T. find_node t (roots st) = Some T \<and>
        (querySelectorAll ''tr'' T = [] \<or> \<not> list_all twoCols (querySelectorAll ''tr'' T)))")
  case True
  then have "flattenTable st t = st" by (rule flattenTable_skip)
  with i show ?thesis by simp
next
  case False
  then obtain T where T: "find_node t (roots st) = Some T" "querySelectorAll ''tr'' T \<noteq> []"
    "list_all twoCols (querySelectorAll ''tr'' T)" by auto
  let ?st2 = "foldl (flattenRow (fresh st)) (snd (createElement ''p'' st))
          (enumerate 0 (map ident (querySelectorAll ''tr'' T)))"
  have "store_inv (snd (createElement ''p'' st))" using i by (rule store_inv_create)
  from foldl_flattenRow_inv [OF this is_root_created]
  have 2: "store_inv ?st2" "is_root (fresh st) ?st2" by blast+
  have "store_inv (replaceWith t (fresh st) ?st2)"
    by (rule store_inv_replaceWith [OF 2(1)]) (rule is_root_find [OF 2])
  then show ?thesis unfolding flattenTable_rows [OF T] .
qed

lemma flattenTable_eval:
  assumes "find_node t (roots st) \<noteq> None"
    and "map ident (querySelectorAll ''tr'' (the (find_node t (roots st)))) = rs"
    and "rs \<noteq> []"
    and "list_all twoCols (querySelectorAll ''tr'' (the (find_node t (roots st))))"
  shows "flattenTable st t =
     replaceWith t (fresh st)
       (foldl (flattenRow (fresh st)) (snd (createElement ''p'' st)) (enumerate 0 rs))"
proof -
  from assms(1) obtain T where T: "find_node t (roots st) = Some T" by auto
  with assms(2,3) have "querySelectorAll ''tr'' T \<noteq> []" by auto
  from flattenTable_rows [OF T this] assms(2,4) T show ?thesis by simp
qed

lemma flattenRow_eval:
  assumes "find_node r (roots st) \<noteq> None"
    and "map ident (take 2 (querySelectorAll ''td'' (the (find_node r (roots st))))) = [m, c]"
    and "(trim (textContent (hd (querySelectorAll ''td'' (the (find_node r (roots st))))))
           \<noteq> []) = h"
  shows "flattenRow w st (idx, r) = row_moves w idx m c h st"
proof -
  from assms(1) obtain tr where tr: "find_node r (roots st) = Some tr" by auto
  let ?cells = "querySelectorAll ''td'' tr"
  from assms(2) tr have t: "map ident (take 2 ?cells) = [m, c]" by simp
  then have l: "2 \<le> length ?cells" by (cases ?cells; cases "tl ?cells") auto
  then obtain x y zs where c: "?cells = x # y # zs"
    by (cases ?cells; cases "tl ?cells") auto
  with t have "ident (?cells ! 0) = m" "ident (?cells ! 1) = c" by simp_all
  moreover from c assms(3) tr
  have "(trim (textContent (?cells ! 0)) \<noteq> []) = h" by simp
  ultimately show ?thesis using flattenRow_cells [OF tr l, of w idx] by simp
qed

section \<open>The flattener against its specification\<close>

lemma clr_upd: "upd m (\<lambda>cs. []) (clr S n) = clr (insert m S) n"
  by (induction n) auto

lemma clr_empty: "clr {} n = n"
  by (induction n) (auto simp: map_idI)

lemma clr_id: "S \<inter> set (ids n) = {} \<Longrightarrow> clr S n = n"
proof (induction n)
  case (Elem j t a cs)
  have "map (clr S) cs = cs"
  proof (rule map_idI)
    fix c assume c: "c \<in> set cs"
    with Elem.prems have "S \<inter> set (ids c) = {}" using child_ids(1) [OF c] by auto
    with c show "clr S c = c" by (rule Elem.IH)
  qed
  with Elem.prems show ?case by auto
qed simp

lemma clr_ids_sub: "set (ids (clr S n)) \<subseteq> set (ids n)"
proof (induction n)
  case (Elem j t a cs)
  then show ?case by (auto simp: ids_f_set)
qed simp

lemma clr_ids_f_sub: "set (ids_f (map (clr S) f)) \<subseteq> set (ids_f f)"
  using clr_ids_sub by (fastforce simp: ids_f_set)

text \<open>Two elements of a forest with distinct identities are nested or disjoint.\<close>

lemma elem_self: "is_elem n \<Longrightarrow> n \<in> set (elems n)"
  by (cases n) simp_all

lemma elems_trans: "a \<in> set (elems b) \<Longrightarrow> b \<in> set (elems n) \<Longrightarrow> a \<in> set (elems n)"
proof (induction n)
  case (Elem j t a' cs)
  show ?case
  proof (cases "b = Elem j t a' cs")
    case True with Elem.prems show ?thesis by simp
  next
    case False
    with Elem.prems obtain c where "c \<in> set cs" "b \<in> set (elems c)" by auto
    with Elem.IH Elem.prems(1) show ?thesis by auto
  qed
qed simp

lemma ident_in_ids: "x \<in> set (elems n) \<Longrightarrow> ident x \<in> set (ids n)"
  by (simp add: ids_def)

lemma nested_list:
  assumes "\<And>c x y. c \<in> set f \<Longrightarrow> distinct (ids c) \<Longrightarrow> x \<in> set (elems c) \<Longrightarrow>
      y \<in> set (elems c) \<Longrightarrow>
      x \<in> set (elems y) \<or> y \<in> set (elems x) \<or> set (ids x) \<inter> set (ids y) = {}"
    and "distinct (ids_f f)" and "x \<in> set (all_elems f)" and "y \<in> set (all_elems f)"
  shows "x \<in> set (elems y) \<or> y \<in> set (elems x) \<or> set (ids x) \<inter> set (ids y) = {}"
  using assms
proof (induction f)
  case Nil
  then show ?case by (simp add: all_elems_def)
next
  case (Cons c f)
  from Cons.prems(2) have d: "distinct (ids c)" "distinct (ids_f f)"
    "set (ids c) \<inter> set (ids_f f) = {}" by simp_all
  have sub: "\<And>z. z \<in> set (all_elems f) \<Longrightarrow> set (ids z) \<subseteq> set (ids_f f)"
    using elems_ids_sub by (fastforce simp: all_elems_def ids_f_set)
  from Cons.prems(3) have x: "x \<in> set (elems c) \<or> x \<in> set (all_elems f)"
    by (simp add: all_elems_def)
  from Cons.prems(4) have y: "y \<in> set (elems c) \<or> y \<in> set (all_elems f)"
    by (simp add: all_elems_def)
  show ?case
  proof (cases "x \<in> set (elems c)")
    case xc: True
    show ?thesis
    proof (cases "y \<in> set (elems c)")
      case True
      with xc d(1) show ?thesis using Cons.prems(1) [of c x y] by simp
    next
      case False
      with y have "y \<in> set (all_elems f)" by simp
      then have "set (ids y) \<subseteq> set (ids_f f)" by (rule sub)
      moreover from xc have "set (ids x) \<subseteq> set (ids c)" by (rule elems_ids_sub)
      ultimately show ?thesis using d(3) by blast
    qed
  next
    case xf: False
    with x have xf': "x \<in> set (all_elems f)" by simp
    show ?thesis
    proof (cases "y \<in> set (elems c)")
      case True
      then have "set (ids y) \<subseteq> set (ids c)" by (rule elems_ids_sub)
      moreover from xf' have "set (ids x) \<subseteq> set (ids_f f)" by (rule sub)
      ultimately show ?thesis using d(3) by blast
    next
      case False
      with y have yf: "y \<in> set (all_elems f)" by simp
      show ?thesis
      proof (rule Cons.IH [OF _ d(2) xf' yf])
        fix c' x' y'
        assume "c' \<in> set f" "distinct (ids c')" "x' \<in> set (elems c')" "y' \<in> set (elems c')"
        then show "x' \<in> set (elems y') \<or> y' \<in> set (elems x') \<or>
            set (ids x') \<inter> set (ids y') = {}"
          using Cons.prems(1) [of c' x' y'] by simp
      qed
    qed
  qed
qed

lemma nested_or_disjoint:
  "distinct (ids n) \<Longrightarrow> x \<in> set (elems n) \<Longrightarrow> y \<in> set (elems n) \<Longrightarrow>
   x \<in> set (elems y) \<or> y \<in> set (elems x) \<or> set (ids x) \<inter> set (ids y) = {}"
proof (induction n arbitrary: x y)
  case (Elem j t a cs)
  let ?n = "Elem j t a cs"
  show ?case
  proof (cases "x = ?n \<or> y = ?n")
    case True
    with Elem.prems show ?thesis by auto
  next
    case False
    with Elem.prems have xy: "x \<in> set (all_elems cs)" "y \<in> set (all_elems cs)"
      by (simp_all add: all_elems_def)
    from Elem.prems(1) have d: "distinct (ids_f cs)" by simp
    show ?thesis by (rule nested_list [OF _ d xy]) (rule Elem.IH)
  qed
qed simp

lemma nested_or_disjoint_f:
  "distinct (ids_f f) \<Longrightarrow> x \<in> set (all_elems f) \<Longrightarrow> y \<in> set (all_elems f) \<Longrightarrow>
   x \<in> set (elems y) \<or> y \<in> set (elems x) \<or> set (ids x) \<inter> set (ids y) = {}"
  by (rule nested_list) (rule nested_or_disjoint)

text \<open>An element stays as it is when the cleared elements are neither in it nor around it.\<close>

lemma clr_intact:
  "x \<in> set (elems n) \<Longrightarrow> S \<inter> set (ids x) = {} \<Longrightarrow>
   (\<And>y. y \<in> set (elems n) \<Longrightarrow> ident y \<in> S \<Longrightarrow> x \<notin> set (elems y)) \<Longrightarrow>
   x \<in> set (elems (clr S n))"
proof (induction n)
  case (Elem j t a cs)
  let ?n = "Elem j t a cs"
  show ?case
  proof (cases "x = ?n")
    case True
    with Elem.prems(2) have "clr S ?n = ?n" by (intro clr_id) simp
    with True show ?thesis by simp
  next
    case False
    with Elem.prems(1) obtain c where c: "c \<in> set cs" "x \<in> set (elems c)" by auto
    have "j \<notin> S" using Elem.prems(3) [of ?n] Elem.prems(1) by auto
    moreover have "x \<in> set (elems (clr S c))"
    proof (rule Elem.IH [OF c Elem.prems(2)])
      fix y assume y: "y \<in> set (elems c)" "ident y \<in> S"
      with c(1) have "y \<in> set (elems ?n)" by auto
      with y(2) show "x \<notin> set (elems y)" using Elem.prems(3) [of y] by simp
    qed
    ultimately show ?thesis using c(1) by auto
  qed
qed simp

lemma clr_intact_f:
  assumes "x \<in> set (all_elems f)" and "S \<inter> set (ids x) = {}"
    and "\<And>y. y \<in> set (all_elems f) \<Longrightarrow> ident y \<in> S \<Longrightarrow> x \<notin> set (elems y)"
  shows "x \<in> set (all_elems (map (clr S) f))"
proof -
  from assms(1) obtain n where n: "n \<in> set f" "x \<in> set (elems n)" by (auto simp: all_elems_def)
  have "x \<in> set (elems (clr S n))"
  proof (rule clr_intact [OF n(2) assms(2)])
    fix y assume "y \<in> set (elems n)" "ident y \<in> S"
    with n(1) show "x \<notin> set (elems y)" using assms(3) [of y] by (auto simp: all_elems_def)
  qed
  with n(1) show ?thesis by (auto simp: all_elems_def)
qed

lemma clr_clr: "clr A (clr B n) = clr (A \<union> B) n"
  by (induction n) auto

lemma upd_clr: "upd i (\<lambda>cs. []) n = clr {i} n"
  using clr_upd [of i "{}" n] by (simp add: clr_empty)

lemma unique_elem:
  assumes "distinct (ids_f f)" "x \<in> set (all_elems f)" "y \<in> set (all_elems f)"
    "ident x = ident y"
  shows "x = y"
proof -
  have "find_node (ident x) f = Some x" using assms(1,2) by (rule find_unique)
  moreover have "find_node (ident y) f = Some y" using assms(1,3) by (rule find_unique)
  ultimately have "Some x = Some y" unfolding assms(4) by (rule trans [OF sym])
  then show ?thesis by (simp only: option.inject)
qed

lemma root_in_all: "Elem i t a cs \<in> set f \<Longrightarrow> Elem i t a cs \<in> set (all_elems f)"
  unfolding all_elems_def by (simp, rule bexI [of _ "Elem i t a cs"]) simp_all

lemma all_elems_ids:
  assumes "x \<in> set (all_elems f)"
  shows "set (ids x) \<subseteq> set (ids_f f)"
proof -
  from assms obtain n where n: "n \<in> set f" "x \<in> set (elems n)" by (auto simp: all_elems_def)
  from n(2) have "set (ids x) \<subseteq> set (ids n)" by (rule elems_ids_sub)
  with n(1) show ?thesis unfolding ids_f_set by blast
qed

lemma all_elems_ident: "x \<in> set (all_elems f) \<Longrightarrow> ident x \<in> set (ids_f f)"
  by (simp add: ids_f_def)

lemma clr_id_f: "S \<inter> set (ids_f f) = {} \<Longrightarrow> map (clr S) f = f"
proof (rule map_idI)
  fix n assume "S \<inter> set (ids_f f) = {}" "n \<in> set f"
  then have "S \<inter> set (ids n) = {}" by (auto simp: ids_f_set)
  then show "clr S n = n" by (rule clr_id)
qed

lemma move_inner:
  assumes d: "distinct (ids_f (roots st))"
    and r: "roots st = A @ [Elem dd t a cs]"
    and S: "S \<in> set (all_elems A)"
  shows "move_children (ident S) dd st =
     st\<lparr>roots := map (clr {ident S}) A @ [Elem dd t a (cs @ childNodes S)]\<rparr>"
proof -
  from S have "S \<in> set (all_elems (roots st))" by (simp add: r all_elems_def)
  with d have f: "find_node (ident S) (roots st) = Some S" by (rule find_unique)
  from S have sA: "ident S \<in> set (ids_f A)" by (rule all_elems_ident)
  from d have dd: "dd \<notin> set (ids_f A)" "set (ids_f A) \<inter> set (ids_f cs) = {}"
    unfolding r by simp_all
  with sA have 1: "ident S \<noteq> dd" "ident S \<notin> set (ids_f cs)" by auto
  have 2: "dd \<notin> set (ids_f (map (clr {ident S}) A))" using dd(1) clr_ids_f_sub by blast
  have "map (upd (ident S) (\<lambda>cs. [])) (roots st) = map (clr {ident S}) A @ [Elem dd t a cs]"
    unfolding r using 1 by (simp add: upd_clr clr_id_f)
  moreover have "map (upd dd (\<lambda>cs. cs @ childNodes S)) (map (clr {ident S}) A @ [Elem dd t a cs]) =
      map (clr {ident S}) A @ [Elem dd t a (cs @ childNodes S)]"
    unfolding map_append upd_id_f [OF 2] by simp
  ultimately show ?thesis by (simp add: move_children_def f)
qed

lemma move_root:
  assumes d: "distinct (ids_f (roots st))"
    and r: "roots st = A @ Elem dd t1 a1 cs # B @ Elem s t2 a2 xs # C"
  shows "move_children s dd st =
     st\<lparr>roots := A @ Elem dd t1 a1 (cs @ xs) # B @ Elem s t2 a2 [] # C\<rparr>"
proof -
  have "Elem s t2 a2 xs \<in> set (all_elems (roots st))" by (rule root_in_all) (simp add: r)
  with d have f: "find_node s (roots st) = Some (Elem s t2 a2 xs)"
    using find_unique [of "roots st" "Elem s t2 a2 xs"] by simp
  from d have n: "s \<notin> set (ids_f A)" "s \<noteq> dd" "s \<notin> set (ids_f cs)" "s \<notin> set (ids_f B)"
    "s \<notin> set (ids_f C)" "dd \<notin> set (ids_f A)" "dd \<notin> set (ids_f B)" "dd \<notin> set (ids_f C)"
    by (auto simp: r)
  have "map (upd s (\<lambda>cs. [])) (roots st) = A @ Elem dd t1 a1 cs # B @ Elem s t2 a2 [] # C"
    unfolding r using n by (simp add: upd_id_f)
  moreover have "map (upd dd (\<lambda>cs. cs @ xs)) (A @ Elem dd t1 a1 cs # B @ Elem s t2 a2 [] # C) =
      A @ Elem dd t1 a1 (cs @ xs) # B @ Elem s t2 a2 [] # C"
    using n by (simp add: upd_id_f)
  ultimately show ?thesis by (simp add: move_children_def f)
qed

lemma appendNew_root:
  assumes d: "distinct (ids_f (roots st))"
    and r: "roots st = A @ Elem dd t a cs # B"
  shows "appendNew tg dd st =
     st\<lparr>roots := A @ Elem dd t a (cs @ [Elem (fresh st) tg [] []]) # B, fresh := Suc (fresh st)\<rparr>"
proof -
  from d have "dd \<notin> set (ids_f A)" "dd \<notin> set (ids_f B)" by (auto simp: r)
  then show ?thesis unfolding appendNew_def r by (simp add: upd_id_f)
qed

lemma appendText_root:
  assumes d: "distinct (ids_f (roots st))"
    and r: "roots st = A @ Elem dd t a cs # B"
  shows "appendText s dd st = st\<lparr>roots := A @ Elem dd t a (cs @ [Text s]) # B\<rparr>"
proof -
  from d have "dd \<notin> set (ids_f A)" "dd \<notin> set (ids_f B)" by (auto simp: r)
  then show ?thesis unfolding appendText_def r by (simp add: upd_id_f)
qed

lemma move_root_inv:
  assumes "store_inv st" and "roots st = A @ Elem dd t1 a1 cs # B @ Elem s t2 a2 xs # C"
  shows "store_inv (move_children s dd st)"
    "roots (move_children s dd st) = A @ Elem dd t1 a1 (cs @ xs) # B @ Elem s t2 a2 [] # C"
    "fresh (move_children s dd st) = fresh st"
proof -
  from assms(1) have d: "distinct (ids_f (roots st))" by (simp add: store_inv_def)
  show "store_inv (move_children s dd st)" using assms(1) by (rule store_inv_move)
  show "roots (move_children s dd st) = A @ Elem dd t1 a1 (cs @ xs) # B @ Elem s t2 a2 [] # C"
    unfolding move_root [OF d assms(2)] by simp
  show "fresh (move_children s dd st) = fresh st" by simp
qed

lemma appendNew_root_inv:
  assumes "store_inv st" and "roots st = A @ Elem dd t a cs # B"
  shows "store_inv (appendNew tg dd st)"
    "roots (appendNew tg dd st) = A @ Elem dd t a (cs @ [Elem (fresh st) tg [] []]) # B"
    "fresh (appendNew tg dd st) = Suc (fresh st)"
proof -
  from assms(1) have d: "distinct (ids_f (roots st))" by (simp add: store_inv_def)
  show "store_inv (appendNew tg dd st)" using assms(1) by (rule store_inv_appendNew)
  show "roots (appendNew tg dd st) = A @ Elem dd t a (cs @ [Elem (fresh st) tg [] []]) # B"
    unfolding appendNew_root [OF d assms(2)] by simp
  show "fresh (appendNew tg dd st) = Suc (fresh st)" by simp
qed

lemma appendText_root_inv:
  assumes "store_inv st" and "roots st = A @ Elem dd t a cs # B"
  shows "store_inv (appendText s dd st)"
    "roots (appendText s dd st) = A @ Elem dd t a (cs @ [Text s]) # B"
    "fresh (appendText s dd st) = fresh st"
proof -
  from assms(1) have d: "distinct (ids_f (roots st))" by (simp add: store_inv_def)
  show "store_inv (appendText s dd st)" using assms(1) by (rule store_inv_appendText)
  show "roots (appendText s dd st) = A @ Elem dd t a (cs @ [Text s]) # B"
    unfolding appendText_root [OF d assms(2)] by simp
  show "fresh (appendText s dd st) = fresh st" by simp
qed

lemma dom_eqI:
  "roots (x::dom) = f \<Longrightarrow> fresh x = n \<Longrightarrow> dom.more x = dom.more y \<Longrightarrow>
   x = y\<lparr>roots := f, fresh := n\<rparr>"
  by simp

lemma more_ops [simp]:
  "dom.more (move_children src dst st) = dom.more st"
  "dom.more (appendNew tg p st) = dom.more st"
  "dom.more (appendText s p st) = dom.more st"
  "dom.more (snd (createDocumentFragment st)) = dom.more st"
  by (simp_all add: move_children_def appendNew_def appendText_def createDocumentFragment_def
      createElement_def split: option.splits)

lemma row_step:
  assumes inv: "store_inv st"
    and r: "roots st = R @ Elem w tg a out # frs"
    and M: "M \<in> set (all_elems R)" and C: "C \<in> set (all_elems R)"
    and dis: "set (ids M) \<inter> set (ids C) = {}"
  shows "row_moves w idx (ident M) (ident C) h st =
     st\<lparr>roots := map (clr {ident M, ident C}) R @
                  Elem w tg a (out @ block idx h (fresh st + 2) (fresh st + 3) (childNodes M) (childNodes C)) #
                  frs @ [Elem (fresh st) ''#document-fragment'' [] (if h then [] else childNodes M),
                         Elem (Suc (fresh st)) ''#document-fragment'' [] []],
        fresh := fresh st + 2 + breaks idx h\<rparr>"
proof -
  let ?b = "fresh st" and ?m = "ident M" and ?c = "ident C"
  let ?W = "Elem w tg a out"
  let ?fr = "''#document-fragment''"
  let ?R2 = "map (clr {?m, ?c}) R"
  from inv have d0: "distinct (ids_f (roots st))" by (simp add: store_inv_def)
  have mR: "?m \<in> set (ids_f R)" "?c \<in> set (ids_f R)"
    using M C by (simp_all add: all_elems_ident)
  have eM: "is_elem M" "is_elem C" using M C elems_is_elem by (auto simp: all_elems_def)
  then have mM: "?m \<in> set (ids M)" "?c \<in> set (ids C)" by (simp_all add: ids_elem)
  from d0 have n0: "set (ids_f R) \<inter> set (ids_f (?W # frs)) = {}" unfolding r by auto
  have idW: "\<And>S. S \<subseteq> set (ids_f R) \<Longrightarrow> map (clr S) (?W # frs) = ?W # frs"
    by (rule clr_id_f) (use n0 in blast)
  define st1 where "st1 = snd (createDocumentFragment st)"
  have r1: "roots st1 = (R @ ?W # frs) @ [Elem ?b ?fr [] []]" and f1: "fresh st1 = Suc ?b"
    by (simp_all add: st1_def createDocumentFragment_def createElement_def r)
  have i1: "store_inv st1" unfolding st1_def using inv by (rule store_inv_fragment)
  define st2 where "st2 = move_children ?m ?b st1"
  have i2: "store_inv st2" unfolding st2_def using i1 by (rule store_inv_move)
  have "M \<in> set (all_elems (R @ ?W # frs))" using M by (simp add: all_elems_def)
  from move_inner [OF _ r1 this] i1
  have "st2 = st1\<lparr>roots := map (clr {?m}) (R @ ?W # frs) @ [Elem ?b ?fr [] (childNodes M)]\<rparr>"
    by (simp add: st2_def store_inv_def)
  then have r2: "roots st2 = map (clr {?m}) R @ ?W # frs @ [Elem ?b ?fr [] (childNodes M)]"
    and f2: "fresh st2 = Suc ?b"
    using idW [of "{?m}"] mR f1 by simp_all
  define st3 where "st3 = snd (createDocumentFragment st2)"
  have r3: "roots st3 = (map (clr {?m}) R @ ?W # frs @ [Elem ?b ?fr [] (childNodes M)]) @
      [Elem (Suc ?b) ?fr [] []]" and f3: "fresh st3 = ?b + 2"
    by (simp_all add: st3_def createDocumentFragment_def createElement_def r2 f2)
  have i3: "store_inv st3" unfolding st3_def using i2 by (rule store_inv_fragment)
  define st4 where "st4 = move_children ?c (Suc ?b) st3"
  have i4: "store_inv st4" unfolding st4_def using i3 by (rule store_inv_move)
  have "C \<in> set (all_elems (map (clr {?m}) R))"
  proof (rule clr_intact_f [OF C])
    show "{?m} \<inter> set (ids C) = {}" using mM dis by auto
    fix y assume y: "y \<in> set (all_elems R)" "ident y \<in> {?m}"
    from d0 have "distinct (ids_f R)" unfolding r by simp
    from unique_elem [OF this y(1) M] y(2) have "y = M" by simp
    moreover have "C \<notin> set (elems M)"
    proof
      assume "C \<in> set (elems M)"
      then have "?c \<in> set (ids M)" by (rule ident_in_ids)
      with mM dis show False by auto
    qed
    ultimately show "C \<notin> set (elems y)" by simp
  qed
  then have "C \<in> set (all_elems (map (clr {?m}) R @ ?W # frs @ [Elem ?b ?fr [] (childNodes M)]))"
    by (simp add: all_elems_def)
  from move_inner [OF _ r3 this] i3
  have e4: "st4 = st3\<lparr>roots := map (clr {?c})
       (map (clr {?m}) R @ ?W # frs @ [Elem ?b ?fr [] (childNodes M)]) @
       [Elem (Suc ?b) ?fr [] (childNodes C)]\<rparr>"
    by (simp add: st4_def store_inv_def)
  have lt: "?c < ?b" using inv mR r by (auto simp: store_inv_def)
  have "?c \<notin> set (ids_f (childNodes M))" using mM dis children_ids_sub [of M] by auto
  with lt have "clr {?c} (Elem ?b ?fr [] (childNodes M)) = Elem ?b ?fr [] (childNodes M)"
    by (intro clr_id) simp
  moreover have "map (clr {?c}) (map (clr {?m}) R) = ?R2"
    by (simp add: clr_clr insert_commute)
  ultimately have r4: "roots st4 = ?R2 @ ?W # frs @
      [Elem ?b ?fr [] (childNodes M), Elem (Suc ?b) ?fr [] (childNodes C)]"
    and f4: "fresh st4 = ?b + 2"
    using e4 idW [of "{?c}"] mR f3 by simp_all
  have d4: "distinct (ids_f (roots st4))" using i4 by (simp add: store_inv_def)
  have s4: "row_moves w idx ?m ?c h st =
     (if idx = 0
         then (if h
               then move_children (Suc ?b) w (appendNew ''br'' w (move_children ?b w st4))
               else move_children (Suc ?b) w st4)
         else if h
         then move_children (Suc ?b) w
                (appendNew ''br'' w (move_children ?b w (appendNew ''br'' w st4)))
         else move_children (Suc ?b) w (appendText '' '' w st4))"
    unfolding row_moves_def Let_def st4_def st3_def st2_def st1_def
    by (simp add: createDocumentFragment_def createElement_def)
  have m4: "dom.more st4 = dom.more st" by (simp add: st4_def st3_def st2_def st1_def)
  let ?cM = "childNodes M" and ?cC = "childNodes C"
  let ?F2 = "Elem (Suc ?b) ?fr [] ?cC"
  have r4a: "roots st4 = ?R2 @ Elem w tg a out # frs @ Elem ?b ?fr [] ?cM # [?F2]"
    and r4b: "roots st4 = ?R2 @ Elem w tg a out # (frs @ [Elem ?b ?fr [] ?cM]) @ ?F2 # []"
    and r4c: "roots st4 = ?R2 @ Elem w tg a out # (frs @ [Elem ?b ?fr [] ?cM, ?F2])"
    by (simp_all add: r4)
  consider (a) "idx = 0" "h" | (b) "idx = 0" "\<not> h" | (c) "idx \<noteq> 0" "h" | (d) "idx \<noteq> 0" "\<not> h"
    by blast
  then show ?thesis
  proof cases
    case a
    note 5 = move_root_inv [OF i4 r4a]
    note 6 = appendNew_root_inv [OF 5(1,2), of "''br''"]
    have "roots (appendNew ''br'' w (move_children ?b w st4)) =
        ?R2 @ Elem w tg a (out @ ?cM @ [Elem (?b + 2) ''br'' [] []]) #
          (frs @ [Elem ?b ?fr [] []]) @ ?F2 # []"
      by (simp add: 6(2) 5(3) f4)
    note 7 = move_root_inv [OF 6(1) this]
    show ?thesis unfolding s4 using a
      by (simp add: 7(2) 6(3) 5(3) f4 m4 block_def breaks_def dom_eqI)
  next
    case b
    note 7 = move_root_inv [OF i4 r4b]
    show ?thesis unfolding s4 using b
      by (simp add: 7(2) f4 m4 block_def breaks_def dom_eqI)
  next
    case c
    note 5 = appendNew_root_inv [OF i4 r4a, of "''br''"]
    note 6 = move_root_inv [OF 5(1,2)]
    note 7 = appendNew_root_inv [OF 6(1,2), of "''br''"]
    have "roots (appendNew ''br'' w (move_children ?b w (appendNew ''br'' w st4))) =
        ?R2 @ Elem w tg a (out @ [Elem (?b + 2) ''br'' [] []] @ ?cM @ [Elem (?b + 3) ''br'' [] []]) #
          (frs @ [Elem ?b ?fr [] []]) @ ?F2 # []"
      by (simp add: 7(2) 6(3) 5(3) f4 numeral_3_eq_3)
    note 8 = move_root_inv [OF 7(1) this]
    show ?thesis unfolding s4 using c
      by (simp add: 8(2) 7(3) 6(3) 5(3) f4 m4 block_def breaks_def dom_eqI numeral_3_eq_3)
  next
    case d
    note 5 = appendText_root_inv [OF i4 r4c, of "'' ''"]
    have "roots (appendText '' '' w st4) =
        ?R2 @ Elem w tg a (out @ [Text '' '']) # (frs @ [Elem ?b ?fr [] ?cM]) @ ?F2 # []"
      by (simp add: 5(2))
    note 6 = move_root_inv [OF 5(1) this]
    show ?thesis unfolding s4 using d
      by (simp add: 6(2) 5(3) f4 m4 block_def breaks_def dom_eqI)
  qed
qed

lemma ids_f_filter: "ids_f (filter is_elem cs) = ids_f cs"
proof (induction cs)
  case (Cons c cs)
  then show ?case by (cases c) simp_all
qed simp

lemma descendants_all: "descendants n = all_elems (childNodes n)"
  by (simp add: descendants_def all_elems_def)

lemma child_in_elems:
  assumes c: "c \<in> set (childNodes n)" "is_elem c"
  shows "c \<in> set (all_elems (childNodes n))" "c \<in> set (elems n)"
proof -
  from c(2) have "c \<in> set (elems c)" by (rule elem_self)
  with c(1) show 1: "c \<in> set (all_elems (childNodes n))" by (auto simp: all_elems_def)
  then show "c \<in> set (elems n)" using childNodes_sub [of n] by (auto simp: all_elems_def)
qed

lemma all_elems_trans:
  assumes "x \<in> set (elems y)" "y \<in> set (all_elems f)"
  shows "x \<in> set (all_elems f)"
proof -
  from assms(2) obtain n where n: "n \<in> set f" "y \<in> set (elems n)" by (auto simp: all_elems_def)
  from assms(1) n(2) have "x \<in> set (elems n)" by (rule elems_trans)
  with n(1) show ?thesis by (auto simp: all_elems_def)
qed

lemma distinct_sub_elem:
  assumes "distinct (ids_f f)" "x \<in> set (all_elems f)"
  shows "distinct (ids x)"
proof -
  from assms(2) obtain n where n: "n \<in> set f" "x \<in> set (elems n)" by (auto simp: all_elems_def)
  from n(1) assms(1) have "distinct (ids n)"
    by (induction f) auto
  with elems_mset_sub [OF n(2)] show ?thesis by (rule distinct_mset_sub)
qed

text \<open>The two cells of a row of two columns.\<close>

lemma row_cells:
  assumes d: "distinct (ids_f f)" and r: "r \<in> set (all_elems f)" and t: "twoCols r"
  shows "cells r = [cells r ! 0, cells r ! 1]"
    "cells r ! 0 \<in> set (all_elems f)" "cells r ! 1 \<in> set (all_elems f)"
    "cells r ! 0 \<in> set (elems r)" "cells r ! 1 \<in> set (elems r)"
    "set (ids (cells r ! 0)) \<inter> set (ids (cells r ! 1)) = {}"
proof -
  from t have l: "length (cells r) = 2" by (simp add: twoCols_def cells_def Let_def)
  then obtain x y where xy: "cells r = [x, y]"
    by (cases "cells r"; cases "tl (cells r)") auto
  then show c: "cells r = [cells r ! 0, cells r ! 1]" by simp
  have "set (cells r) \<subseteq> set (elems r)" using child_in_elems(2) [of _ r] by (auto simp: cells_def)
  with xy show e: "cells r ! 0 \<in> set (elems r)" "cells r ! 1 \<in> set (elems r)" by simp_all
  from e(1) r show "cells r ! 0 \<in> set (all_elems f)" by (rule all_elems_trans)
  from e(2) r show "cells r ! 1 \<in> set (all_elems f)" by (rule all_elems_trans)
  from d r have "distinct (ids r)" by (rule distinct_sub_elem)
  moreover have "is_elem r" using r elems_is_elem by (auto simp: all_elems_def)
  ultimately have "distinct (ids_f (childNodes r))" by (simp add: ids_elem)
  then have "distinct (ids_f (cells r))" by (simp add: cells_def ids_f_filter)
  then have "distinct (ids_f [x, y])" using xy by simp
  then show "set (ids (cells r ! 0)) \<inter> set (ids (cells r ! 1)) = {}" using xy by simp
qed

lemma qsa_iff:
  "(x \<in> set (querySelectorAll tg n)) = (x \<in> set (all_elems (childNodes n)) \<and> tag x = tg)"
  by (auto simp: querySelectorAll_def descendants_all)

lemma elems_split:
  "set (elems n) = (if is_elem n then {n} else {}) \<union> set (all_elems (childNodes n))"
  by (cases n) (auto simp: all_elems_def)

text \<open>Two different plain rows share no element.\<close>

lemma plain_rows_disjoint:
  assumes d: "distinct (ids_f f)" and r: "r \<in> set (all_elems f)" "r' \<in> set (all_elems f)"
    and t: "tag r = ''tr''" "tag r' = ''tr''" and p: "plain_row r" "plain_row r'"
    and ne: "ident r \<noteq> ident r'"
  shows "set (ids r) \<inter> set (ids r') = {}"
proof -
  have "r \<notin> set (elems r')"
  proof
    assume "r \<in> set (elems r')"
    with ne have "r \<in> set (all_elems (childNodes r'))" by (auto simp: elems_split split: if_splits)
    with t(1) have "r \<in> set (querySelectorAll ''tr'' r')" by (simp add: qsa_iff)
    with p(2) show False by (simp add: plain_row_def)
  qed
  moreover have "r' \<notin> set (elems r)"
  proof
    assume "r' \<in> set (elems r)"
    with ne have "r' \<in> set (all_elems (childNodes r))" by (auto simp: elems_split split: if_splits)
    with t(2) have "r' \<in> set (querySelectorAll ''tr'' r)" by (simp add: qsa_iff)
    with p(1) show False by (simp add: plain_row_def)
  qed
  ultimately show ?thesis using nested_or_disjoint_f [OF d r] by blast
qed

lemma row_loop:
  assumes "store_inv st" and "roots st = R @ Elem w tg a out # frs"
    and "\<And>r. r \<in> snd ` set rs \<Longrightarrow>
           r \<in> set (all_elems R) \<and> tag r = ''tr'' \<and> plain_row r \<and> twoCols r"
    and "distinct (map (\<lambda>ir. ident (snd ir)) rs)"
  shows "\<exists>frs'. roots (foldl (flattenRow w) st (map (\<lambda>ir. (fst ir, ident (snd ir))) rs)) =
      map (clr (cell_ids (map snd rs))) R @ Elem w tg a (out @ emit (fresh st) rs) # frs'"
  using assms
proof (induction rs arbitrary: st R out frs)
  case Nil
  then show ?case by (simp add: cell_ids_def clr_empty map_idI)
next
  case (Cons ir rs)
  obtain idx r where ir: "ir = (idx, r)" by (cases ir)
  let ?M = "cells r ! 0" and ?C = "cells r ! 1"
  let ?R' = "map (clr {ident ?M, ident ?C}) R"
  let ?out' = "out @ block idx (hasMarker r) (fresh st + 2) (fresh st + 3)
                              (childNodes ?M) (childNodes ?C)"
  let ?frs' = "frs @ [Elem (fresh st) ''#document-fragment'' []
                   (if hasMarker r then [] else childNodes ?M),
                 Elem (Suc (fresh st)) ''#document-fragment'' [] []]"
  let ?st' = "st\<lparr>roots := ?R' @ Elem w tg a ?out' # ?frs',
        fresh := fresh st + 2 + breaks idx (hasMarker r)\<rparr>"
  from Cons.prems(1) have d: "distinct (ids_f (roots st))" by (simp add: store_inv_def)
  then have dR: "distinct (ids_f R)" by (simp add: Cons.prems(2))
  from Cons.prems(3) [of r] have r: "r \<in> set (all_elems R)" "tag r = ''tr''" "plain_row r"
    "twoCols r" by (simp_all add: ir)
  note c = row_cells [OF dR r(1,4)]
  from r(1) have "r \<in> set (all_elems (roots st))" by (simp add: Cons.prems(2) all_elems_def)
  with d have f: "find_node (ident r) (roots st) = Some r" by (rule find_unique)
  from r(3) have q: "querySelectorAll ''td'' r = cells r" by (simp add: plain_row_def)
  have l: "2 \<le> length (querySelectorAll ''td'' r)" unfolding q by (subst c(1)) simp
  have "flattenRow w st (idx, ident r) =
      row_moves w idx (ident ?M) (ident ?C) (hasMarker r) st"
    unfolding flattenRow_cells [OF f l] q hasMarker_def ..
  also have "\<dots> = ?st'" by (rule row_step [OF Cons.prems(1,2) c(2,3,6)])
  finally have s: "flattenRow w st (idx, ident r) = ?st'" .
  have i': "store_inv ?st'" unfolding s [symmetric] using Cons.prems(1) by (rule flattenRow_inv)
  have rows: "r' \<in> set (all_elems ?R') \<and> tag r' = ''tr'' \<and>
      plain_row r' \<and> twoCols r'" if "r' \<in> snd ` set rs" for r'
  proof -
    from that Cons.prems(3) [of r'] have r': "r' \<in> set (all_elems R)" "tag r' = ''tr''"
      "plain_row r'" "twoCols r'" by auto
    from that Cons.prems(4) have "ident r \<noteq> ident r'" by (auto simp: ir)
    from plain_rows_disjoint [OF dR r(1) r'(1) r(2) r'(2) r(3) r'(3) this]
    have dj: "set (ids r) \<inter> set (ids r') = {}" .
    have mc: "ident ?M \<in> set (ids r)" "ident ?C \<in> set (ids r)"
      using c(4,5) by (simp_all add: ident_in_ids)
    have "r' \<in> set (all_elems ?R')"
    proof (rule clr_intact_f [OF r'(1)])
      show "{ident ?M, ident ?C} \<inter> set (ids r') = {}" using mc dj by auto
      fix y assume y: "y \<in> set (all_elems R)" "ident y \<in> {ident ?M, ident ?C}"
      then have "y = ?M \<or> y = ?C"
        using unique_elem [OF dR y(1) c(2)] unique_elem [OF dR y(1) c(3)] by auto
      then have yr: "y \<in> set (elems r)" using c(4,5) by auto
      show "r' \<notin> set (elems y)"
      proof
        assume "r' \<in> set (elems y)"
        from this yr have "r' \<in> set (elems r)" by (rule elems_trans)
        then have "ident r' \<in> set (ids r)" by (rule ident_in_ids)
        moreover have "ident r' \<in> set (ids r')"
          using r'(1) elems_is_elem by (auto simp: all_elems_def ids_elem)
        ultimately show False using dj by auto
      qed
    qed
    with r' show ?thesis by simp
  qed
  have dd: "distinct (map (\<lambda>ir. ident (snd ir)) rs)" using Cons.prems(4) by simp
  have rr: "roots ?st' = ?R' @ Elem w tg a ?out' # ?frs'" by simp
  from Cons.IH [OF i' rr rows dd] obtain frs2 where
    "roots (foldl (flattenRow w) ?st' (map (\<lambda>ir. (fst ir, ident (snd ir))) rs)) =
      map (clr (cell_ids (map snd rs))) ?R' @
      Elem w tg a (?out' @ emit (fresh ?st') rs) # frs2"
    by blast
  moreover have "set (cells r) = {?M, ?C}"
  proof -
    have "set (cells r) = set [?M, ?C]" by (subst c(1)) simp
    then show ?thesis by simp
  qed
  then have "cell_ids (map snd rs) \<union> {ident ?M, ident ?C} = cell_ids (map snd (ir # rs))"
    unfolding cell_ids_def by (auto simp: ir)
  ultimately show ?case
    by (simp add: ir s clr_clr)
qed

lemma is_elem_clr [simp]: "is_elem (clr S n) = is_elem n" "ident (clr S n) = ident n"
  by (cases n; simp)+

lemma repl_clr:
  "S \<inter> set (ids (repl t (Text []) n)) = {} \<Longrightarrow> repl t W (clr S n) = repl t W n"
proof (induction n)
  case (Elem j tg a cs)
  from Elem.prems have j: "j \<notin> S" by auto
  have "(if is_elem (clr S c) \<and> ident (clr S c) = t then W else repl t W (clr S c)) =
      (if is_elem c \<and> ident c = t then W else repl t W c)" if c: "c \<in> set cs" for c
  proof (cases "is_elem c \<and> ident c = t")
    case True
    then show ?thesis by simp
  next
    case False
    with c Elem.prems have "S \<inter> set (ids (repl t (Text []) c)) = {}"
      by (fastforce simp: ids_f_set)
    with c have "repl t W (clr S c) = repl t W c" by (rule Elem.IH)
    with False show ?thesis by auto
  qed
  with j show ?case by simp
qed simp

lemma repl_cut_disjoint:
  assumes d: "distinct (ids n)" and T: "T \<in> set (all_elems (childNodes n))"
  shows "set (ids (repl (ident T) (Text []) n)) \<inter> set (ids T) = {}"
proof -
  from T have "ident T \<in> set (ids_f (childNodes n))" by (rule all_elems_ident)
  from repl_mset [OF d this, of "Text []"] obtain T' where
    T': "T' \<in> set (all_elems (childNodes n))" "ident T' = ident T"
    "mset (ids (repl (ident T) (Text []) n)) + mset (ids T') = mset (ids n) + mset (ids (Text []))"
    by blast
  have "distinct (ids_f (childNodes n))" using d children_ids_sub [of n]
    by (cases n) simp_all
  from unique_elem [OF this T'(1) T T'(2)] have "T' = T" .
  with T'(3) have "mset (ids (repl (ident T) (Text []) n) @ ids T) = mset (ids n)" by simp
  with d have "distinct (ids (repl (ident T) (Text []) n) @ ids T)"
    by (metis mset_eq_imp_distinct_iff)
  then show ?thesis by simp
qed

lemma clr_keeps_id:
  "x \<in> set (elems n) \<Longrightarrow>
   (\<And>y. y \<in> set (elems n) \<Longrightarrow> ident y \<in> S \<Longrightarrow> x \<notin> set (all_elems (childNodes y))) \<Longrightarrow>
   ident x \<in> set (ids (clr S n))"
proof (induction n)
  case (Elem j t a cs)
  let ?n = "Elem j t a cs"
  show ?case
  proof (cases "x = ?n")
    case True
    then show ?thesis by simp
  next
    case False
    with Elem.prems(1) obtain c where c: "c \<in> set cs" "x \<in> set (elems c)" by auto
    then have "x \<in> set (all_elems (childNodes ?n))" by (auto simp: all_elems_def)
    with Elem.prems(2) [of ?n] have j: "j \<notin> S" by auto
    have "ident x \<in> set (ids (clr S c))"
    proof (rule Elem.IH [OF c])
      fix y assume y: "y \<in> set (elems c)" "ident y \<in> S"
      with c(1) have "y \<in> set (elems ?n)" by auto
      with y(2) show "x \<notin> set (all_elems (childNodes y))" using Elem.prems(2) [of y] by simp
    qed
    with c(1) j show ?thesis by (auto simp: ids_f_set)
  qed
qed simp

lemma enumerate_map_ident:
  "enumerate n (map f xs) = map (\<lambda>ir. (fst ir, f (snd ir))) (enumerate n xs)"
  by (induction xs arbitrary: n) simp_all

lemma snd_enumerate: "snd ` set (enumerate n xs) = set xs"
  by (metis list.set_map map_snd_enumerate)

lemma map_snd_enum: "map (\<lambda>ir. f (snd ir)) (enumerate n xs) = map f xs"
  by (induction xs arbitrary: n) simp_all

lemma cell_ids_sub:
  assumes "\<And>r. r \<in> set rs \<Longrightarrow> r \<in> set (elems T)"
  shows "cell_ids rs \<subseteq> ident ` set (all_elems (childNodes T)) \<inter> set (ids T)"
proof
  fix i assume "i \<in> cell_ids rs"
  then obtain r c where rc: "r \<in> set rs" "c \<in> set (cells r)" "i = ident c"
    by (auto simp: cell_ids_def)
  from rc(2) have c: "c \<in> set (childNodes r)" "is_elem c" by (simp_all add: cells_def)
  then have "c \<in> set (all_elems (childNodes r))" by (rule child_in_elems(1))
  moreover from assms rc(1) have rT: "r \<in> set (elems T)" by simp
  then have "set (all_elems (childNodes r)) \<subseteq> set (all_elems (childNodes T))"
  proof (cases "r = T")
    case False
    with rT have rc: "r \<in> set (all_elems (childNodes T))"
      by (auto simp: elems_split split: if_splits)
    show ?thesis
    proof
      fix x assume "x \<in> set (all_elems (childNodes r))"
      then have "x \<in> set (elems r)" using childNodes_sub [of r] by (auto simp: all_elems_def)
      from this rc show "x \<in> set (all_elems (childNodes T))" by (rule all_elems_trans)
    qed
  qed simp
  ultimately have cT: "c \<in> set (all_elems (childNodes T))" by blast
  then have "c \<in> set (elems T)" using childNodes_sub [of T] by (auto simp: all_elems_def)
  then have "ident c \<in> set (ids T)" by (rule ident_in_ids)
  with cT rc(3) show "i \<in> ident ` set (all_elems (childNodes T)) \<inter> set (ids T)" by blast
qed

lemma flattenTable_plain:
  assumes inv: "store_inv st" and r: "roots st = doc # g"
    and T: "T \<in> set (all_elems (childNodes doc))"
    and m: "margin_table T" and p: "list_all plain_row (querySelectorAll ''tr'' T)"
  shows "\<exists>g'. roots (flattenTable st (ident T)) =
      repl (ident T)
        (Elem (fresh st) ''p'' [] (emit (Suc (fresh st)) (enumerate 0 (querySelectorAll ''tr'' T))))
        doc # g'"
proof -
  let ?t = "ident T" and ?w = "fresh st"
  let ?rows = "querySelectorAll ''tr'' T"
  let ?rs = "enumerate 0 ?rows"
  let ?S = "cell_ids ?rows"
  let ?W = "Elem ?w ''p'' [] (emit (Suc ?w) ?rs)"
  from inv have d: "distinct (ids_f (roots st))" and lt: "\<And>i. i \<in> set (ids_f (roots st)) \<Longrightarrow> i < ?w"
    by (simp_all add: store_inv_def)
  from d have dd: "distinct (ids doc)" by (simp add: r)
  from T have ed: "is_elem doc" by (cases doc) (simp_all add: all_elems_def)
  from T have Td: "T \<in> set (elems doc)" using childNodes_sub [of doc] by (auto simp: all_elems_def)
  then have Ta: "T \<in> set (all_elems (doc # g))" by (simp add: all_elems_def)
  then have f: "find_node ?t (roots st) = Some T" using d by (simp add: r find_unique)
  from m have m1: "?rows \<noteq> []" and m2: "list_all twoCols ?rows" by (simp_all add: margin_table_def)
  let ?st1 = "snd (createElement ''p'' st)"
  let ?st2 = "foldl (flattenRow ?w) ?st1 (enumerate 0 (map ident ?rows))"
  have ft: "flattenTable st ?t = replaceWith ?t ?w ?st2" by (rule flattenTable_rows [OF f m1 m2])
  have i1: "store_inv ?st1" using inv by (rule store_inv_create)
  have r1: "roots ?st1 = (doc # g) @ Elem ?w ''p'' [] [] # []"
    and f1: "fresh ?st1 = Suc ?w" by (simp_all add: createElement_def r)
  from foldl_flattenRow_inv [OF i1 is_root_created]
  have i2: "store_inv ?st2" by blast
  then have d2: "distinct (ids_f (roots ?st2))" by (simp add: store_inv_def)
  have rowsT: "r' \<in> set (elems T)" if "r' \<in> set ?rows" for r'
    using that childNodes_sub [of T] by (auto simp: qsa_iff all_elems_def)
  have rows: "r' \<in> set (all_elems (doc # g)) \<and> tag r' = ''tr'' \<and> plain_row r' \<and> twoCols r'"
    if "r' \<in> snd ` set ?rs" for r'
  proof -
    from that have q: "r' \<in> set ?rows" by (simp add: snd_enumerate)
    from rowsT [OF q] Ta have "r' \<in> set (all_elems (doc # g))" by (rule all_elems_trans)
    moreover from q have "tag r' = ''tr''" by (simp add: qsa_iff)
    moreover from q p m2 have "plain_row r'" "twoCols r'" by (simp_all add: list_all_iff)
    ultimately show ?thesis by simp
  qed
  have dT: "distinct (ids T)" using d [unfolded r] Ta by (rule distinct_sub_elem)
  have eT: "is_elem T" using Td by (rule elems_is_elem)
  have "distinct (map ident (all_elems (childNodes T)))"
    using dT eT by (simp add: ids_elem ids_f_def)
  then have "distinct (map ident ?rows)"
    by (simp add: querySelectorAll_def descendants_all distinct_map_filter)
  then have dr: "distinct (map (\<lambda>ir. ident (snd ir)) ?rs)"
    by (simp only: map_snd_enum)
  from row_loop [OF i1 r1 rows dr] obtain frs' where
    "roots (foldl (flattenRow ?w) ?st1 (map (\<lambda>ir. (fst ir, ident (snd ir))) ?rs)) =
      map (clr (cell_ids (map snd ?rs))) (doc # g) @
      Elem ?w ''p'' [] ([] @ emit (fresh ?st1) ?rs) # frs'" by blast
  then have r2: "roots ?st2 = clr ?S doc # (map (clr ?S) g @ ?W # frs')"
    by (simp add: enumerate_map_ident f1)
  note cs = cell_ids_sub [of ?rows T, OF rowsT]
  have tin: "?t \<in> set (ids (clr ?S doc))"
  proof (rule clr_keeps_id [OF Td])
    fix y assume y: "y \<in> set (elems doc)" "ident y \<in> ?S"
    from y(2) cs obtain c where c: "c \<in> set (all_elems (childNodes T))" "ident c = ident y"
      by (metis (no_types, lifting) IntD1 imageE subsetD)
    have "c \<in> set (elems T)" using c(1) childNodes_sub [of T] by (auto simp: all_elems_def)
    from this Td have "c \<in> set (elems doc)" by (rule elems_trans)
    with y(1) c(2) dd have yc: "y = c"
      using unique_elem [of "[doc]" y c] by (simp add: all_elems_def)
    show "T \<notin> set (all_elems (childNodes y))"
    proof
      assume "T \<in> set (all_elems (childNodes y))"
      then have "?t \<in> set (ids_f (childNodes y))" by (rule all_elems_ident)
      moreover have "set (ids_f (childNodes y)) \<subseteq> set (ids_f (childNodes T))"
        using c(1) yc all_elems_ids [of y "childNodes T"] children_ids_sub [of y] by auto
      ultimately have "?t \<in> set (ids_f (childNodes T))" by blast
      with dT eT show False by (simp add: ids_elem)
    qed
  qed
  then have "find_node ?t (roots ?st2) \<noteq> None" by (simp add: find_node_None r2)
  then obtain T2 where fo: "find_node ?t (roots ?st2) = Some T2" by blast
  have "?W \<in> set (all_elems (roots ?st2))" by (rule root_in_all) (simp add: r2)
  from find_unique [OF d2 this] have fn: "find_node ?w (roots ?st2) = Some ?W" by simp
  have tdoc: "?t \<in> set (ids_f (childNodes doc))" using T by (rule all_elems_ident)
  with dd ed have ne: "ident doc \<noteq> ?t" by (auto simp: ids_elem)
  have nr: "?t \<notin> set (map ident (filter is_elem (roots ?st2)))"
  proof
    assume "?t \<in> set (map ident (filter is_elem (roots ?st2)))"
    then obtain x where x: "x \<in> set (roots ?st2)" "is_elem x" "ident x = ?t" by auto
    with ne have "x \<in> set (map (clr ?S) g @ ?W # frs')" by (auto simp: r2)
    moreover from x(2,3) have "?t \<in> set (ids x)" by (auto simp: ids_elem)
    ultimately have "?t \<in> set (ids_f (map (clr ?S) g @ ?W # frs'))"
      unfolding ids_f_set by blast
    with tin d2 show False unfolding r2 by (simp add: disjoint_iff)
  qed
  have "ident doc \<in> set (ids_f (roots st))" using ed by (simp add: r ids_elem)
  from lt [OF this] have nw: "ident doc \<noteq> ?w" by simp
  have "?S \<inter> set (ids (repl ?t (Text []) doc)) = {}"
    using repl_cut_disjoint [OF dd T] cs by blast
  then have rc: "repl ?t ?W (clr ?S doc) = repl ?t ?W doc" by (rule repl_clr)
  have "roots (replaceWith ?t ?w ?st2) =
      map (repl ?t ?W) (filter (\<lambda>r. \<not> (is_elem r \<and> ident r = ?w)) (roots ?st2)) @ [T2]"
    using nr by (simp add: replaceWith_def fo fn)
  also have "\<dots> = repl ?t ?W doc #
      (map (repl ?t ?W) (filter (\<lambda>r. \<not> (is_elem r \<and> ident r = ?w))
         (map (clr ?S) g @ ?W # frs')) @ [T2])"
    unfolding r2 using nw rc by simp
  finally show ?thesis unfolding ft by blast
qed

lemma doc_is_iff: "doc_is doc st = (\<exists>g. roots st = doc # g)"
  by (cases "roots st") (auto simp: doc_is_def)

lemma doc_is_ops:
  assumes "doc_is doc st"
  shows "src \<notin> set (ids doc) \<Longrightarrow> dst \<notin> set (ids doc) \<Longrightarrow> doc_is doc (move_children src dst st)"
    "p \<notin> set (ids doc) \<Longrightarrow> doc_is doc (appendNew tg p st)"
    "p \<notin> set (ids doc) \<Longrightarrow> doc_is doc (appendText s p st)"
    "doc_is doc (snd (createDocumentFragment st))"
    "doc_is doc (snd (createElement tg st))"
  using assms
  by (auto simp: doc_is_iff move_children_def appendNew_def appendText_def createElement_def
      createDocumentFragment_def upd_id split: option.splits)

lemma row_moves_doc:
  assumes "doc_is doc st" "m \<notin> set (ids doc)" "c \<notin> set (ids doc)" "w \<notin> set (ids doc)"
    "fresh st \<notin> set (ids doc)" "Suc (fresh st) \<notin> set (ids doc)"
  shows "doc_is doc (row_moves w idx m c h st)"
  using assms unfolding row_moves_def Let_def
  by (auto intro!: doc_is_ops)

lemma flattenRow_doc:
  assumes inv: "store_inv st" and dc: "doc_is doc st" and r: "r \<notin> set (ids doc)"
    and w: "w \<notin> set (ids doc)"
  shows "doc_is doc (flattenRow w st (idx, r))"
proof (cases "find_node r (roots st)")
  case None
  then show ?thesis using dc by (simp add: flattenRow_skip)
next
  case (Some tr)
  from dc obtain g where g: "roots st = doc # g" by (auto simp: doc_is_iff)
  from inv have d: "distinct (ids_f (roots st))" and lt: "\<And>i. i \<in> set (ids_f (roots st)) \<Longrightarrow> i < fresh st"
    by (simp_all add: store_inv_def)
  show ?thesis
  proof (cases "2 \<le> length (querySelectorAll ''td'' tr)")
    case False
    with Some dc show ?thesis by (simp add: flattenRow_skip)
  next
    case True
    from find_node_Some [OF Some] have tr: "tr \<in> set (all_elems (doc # g))" "ident tr = r"
      by (simp_all add: g)
    have "tr \<notin> set (elems doc)" using r tr(2) ident_in_ids by blast
    with tr(1) have trg: "tr \<in> set (all_elems g)" by (simp add: all_elems_def)
    have cell: "ident x \<notin> set (ids doc)" if "x \<in> set (querySelectorAll ''td'' tr)" for x
    proof -
      from that have "x \<in> set (elems tr)" using childNodes_sub [of tr] by (auto simp: qsa_iff)
      from this trg have "x \<in> set (all_elems g)" by (rule all_elems_trans)
      then have "ident x \<in> set (ids_f g)" by (rule all_elems_ident)
      with d show ?thesis by (auto simp: g)
    qed
    have f: "fresh st \<notin> set (ids doc)" "Suc (fresh st) \<notin> set (ids doc)"
      using lt by (fastforce simp: g)+
    from True have l: "0 < length (querySelectorAll ''td'' tr)"
      "1 < length (querySelectorAll ''td'' tr)" by linarith+
    have "querySelectorAll ''td'' tr ! 0 \<in> set (querySelectorAll ''td'' tr)"
      "querySelectorAll ''td'' tr ! 1 \<in> set (querySelectorAll ''td'' tr)"
      using nth_mem [OF l(1)] nth_mem [OF l(2)] by blast+
    then have "ident (querySelectorAll ''td'' tr ! 0) \<notin> set (ids doc)"
      "ident (querySelectorAll ''td'' tr ! 1) \<notin> set (ids doc)" by (auto dest: cell)
    with dc w f show ?thesis
      unfolding flattenRow_cells [OF Some True] by (intro row_moves_doc)
  qed
qed

lemma foldl_flattenRow_doc:
  "store_inv st \<Longrightarrow> doc_is doc st \<Longrightarrow> w \<notin> set (ids doc) \<Longrightarrow>
   (\<And>ir. ir \<in> set rs \<Longrightarrow> snd ir \<notin> set (ids doc)) \<Longrightarrow>
   doc_is doc (foldl (flattenRow w) st rs)"
proof (induction rs arbitrary: st)
  case (Cons ir rs)
  have "doc_is doc (flattenRow w st (fst ir, snd ir))"
    using Cons.prems by (intro flattenRow_doc) simp_all
  moreover have "store_inv (flattenRow w st ir)" using Cons.prems(1) by (rule flattenRow_inv)
  ultimately show ?case using Cons.IH Cons.prems(3,4) by simp
qed simp

lemma replaceWith_doc:
  assumes "doc_is doc st" "old \<notin> set (ids doc)" "new \<notin> set (ids doc)"
  shows "doc_is doc (replaceWith old new st)"
proof -
  from assms(1) obtain g where g: "roots st = doc # g" by (auto simp: doc_is_iff)
  have n: "\<not> (is_elem doc \<and> ident doc = new)" using assms(3) by (auto simp: ids_elem)
  have "old \<notin> set (ids_f (childNodes doc))" using assms(2) children_ids_sub [of doc] by blast
  then have "repl old W doc = doc" for W by (rule repl_id)
  with n show ?thesis
    by (auto simp: replaceWith_def g doc_is_iff split: option.splits)
qed

text \<open>The visit of a table that is not in the document leaves the document as it is.\<close>

lemma flattenTable_detached:
  assumes inv: "store_inv st" and dc: "doc_is doc st" and t: "t \<notin> set (ids doc)"
  shows "doc_is doc (flattenTable st t)"
proof (cases "find_node t (roots st) = None \<or>
   (\<exists>T. find_node t (roots st) = Some T \<and>
        (querySelectorAll ''tr'' T = [] \<or> \<not> list_all twoCols (querySelectorAll ''tr'' T)))")
  case True
  then have "flattenTable st t = st" by (rule flattenTable_skip)
  with dc show ?thesis by simp
next
  case False
  then obtain T where T: "find_node t (roots st) = Some T" "querySelectorAll ''tr'' T \<noteq> []"
    "list_all twoCols (querySelectorAll ''tr'' T)" by auto
  from dc obtain g where g: "roots st = doc # g" by (auto simp: doc_is_iff)
  from inv have d: "distinct (ids_f (roots st))" and lt: "\<And>i. i \<in> set (ids_f (roots st)) \<Longrightarrow> i < fresh st"
    by (simp_all add: store_inv_def)
  let ?st1 = "snd (createElement ''p'' st)"
  let ?st2 = "foldl (flattenRow (fresh st)) ?st1
          (enumerate 0 (map ident (querySelectorAll ''tr'' T)))"
  have w: "fresh st \<notin> set (ids doc)" using lt by (fastforce simp: g)
  from find_node_Some [OF T(1)] have Ta: "T \<in> set (all_elems (doc # g))" "ident T = t"
    by (simp_all add: g)
  have "T \<notin> set (elems doc)" using t Ta(2) ident_in_ids by blast
  with Ta(1) have Tg: "T \<in> set (all_elems g)" by (simp add: all_elems_def)
  have rows: "snd ir \<notin> set (ids doc)"
    if "ir \<in> set (enumerate 0 (map ident (querySelectorAll ''tr'' T)))" for ir
  proof -
    from that have "snd ir \<in> snd ` set (enumerate 0 (map ident (querySelectorAll ''tr'' T)))"
      by (rule imageI)
    then obtain x where x: "x \<in> set (querySelectorAll ''tr'' T)" "snd ir = ident x"
      by (auto simp: snd_enumerate)
    from x(1) have "x \<in> set (elems T)" using childNodes_sub [of T] by (auto simp: qsa_iff)
    from this Tg have "x \<in> set (all_elems g)" by (rule all_elems_trans)
    then have "ident x \<in> set (ids_f g)" by (rule all_elems_ident)
    with d x(2) show ?thesis by (auto simp: g)
  qed
  have "store_inv ?st1" using inv by (rule store_inv_create)
  moreover have "doc_is doc ?st1" using dc by (rule doc_is_ops)
  ultimately have "doc_is doc ?st2" using w rows by (rule foldl_flattenRow_doc)
  then have "doc_is doc (replaceWith t (fresh st) ?st2)" using t w by (rule replaceWith_doc)
  then show ?thesis unfolding flattenTable_rows [OF T] .
qed

lemma repl_put: "\<not> (is_elem n \<and> ident n = i) \<Longrightarrow> repl i w n = put i w n"
proof (induction n)
  case (Elem j t a cs)
  have "(if is_elem c \<and> ident c = i then w else repl i w c) = put i w c" if "c \<in> set cs" for c
  proof (cases "is_elem c \<and> ident c = i")
    case True
    then show ?thesis by (cases c) simp_all
  next
    case False
    with that Elem.IH show ?thesis by auto
  qed
  with Elem.prems show ?case by simp
qed simp

lemma put_id: "i \<notin> set (ids n) \<Longrightarrow> put i y n = n"
proof (induction n)
  case (Elem j t a cs)
  have "map (put i y) cs = cs"
  proof (rule map_idI)
    fix c assume c: "c \<in> set cs"
    with Elem.prems have "i \<notin> set (ids c)" by (auto simp: ids_f_set)
    with c show "put i y c = c" by (rule Elem.IH)
  qed
  with Elem.prems show ?case by simp
qed simp

lemma put_put: "is_elem y \<Longrightarrow> ident y = i \<Longrightarrow> put i x (put i y n) = put i x n"
proof (induction n)
  case (Elem j t a cs)
  show ?case
  proof (cases "j = i")
    case True
    with Elem.prems show ?thesis by (cases y) simp_all
  next
    case False
    with Elem show ?thesis by simp
  qed
qed simp

lemma put_in: "N \<in> set (elems n) \<Longrightarrow> ident N = i \<Longrightarrow> is_elem y \<Longrightarrow> y \<in> set (elems (put i y n))"
proof (induction n)
  case (Elem j t a cs)
  show ?case
  proof (cases "j = i")
    case True
    with Elem.prems(3) show ?thesis by (simp add: elem_self)
  next
    case False
    with Elem.prems(1,2) obtain c where c: "c \<in> set cs" "N \<in> set (elems c)" by auto
    from Elem.IH [OF c Elem.prems(2,3)] c(1) False show ?thesis by auto
  qed
qed simp

lemma other_child:
  assumes d: "distinct (ids_f ds)" and N: "N \<in> set (all_elems ds)" and c: "c \<in> set ds"
    and n: "N \<notin> set (elems c)"
  shows "set (ids N) \<inter> set (ids c) = {}"
proof -
  from N obtain d0 where d0: "d0 \<in> set ds" "N \<in> set (elems d0)" by (auto simp: all_elems_def)
  from d0(1) obtain xs ys where s: "ds = xs @ d0 # ys" by (auto simp: in_set_conv_decomp)
  from n d0(2) have "c \<noteq> d0" by auto
  with c s have "c \<in> set xs \<or> c \<in> set ys" by auto
  then have "set (ids c) \<subseteq> set (ids_f xs) \<union> set (ids_f ys)" by (auto simp: ids_f_set)
  moreover from d0(2) have "set (ids N) \<subseteq> set (ids d0)" by (rule elems_ids_sub)
  moreover from d have "set (ids d0) \<inter> (set (ids_f xs) \<union> set (ids_f ys)) = {}"
    unfolding s by auto
  ultimately show ?thesis by blast
qed

lemma put_self: "distinct (ids n) \<Longrightarrow> N \<in> set (elems n) \<Longrightarrow> put (ident N) N n = n"
proof (induction n)
  case (Elem j t a cs)
  let ?n = "Elem j t a cs"
  show ?case
  proof (cases "N = ?n")
    case True
    then show ?thesis by simp
  next
    case False
    with Elem.prems(2) have Nc: "N \<in> set (all_elems cs)" by (auto simp: all_elems_def)
    then have "ident N \<in> set (ids_f cs)" by (rule all_elems_ident)
    with Elem.prems(1) have j: "j \<noteq> ident N" by auto
    from Elem.prems(1) have d: "distinct (ids_f cs)" by simp
    have "map (put (ident N) N) cs = cs"
    proof (rule map_idI)
      fix c assume c: "c \<in> set cs"
      show "put (ident N) N c = c"
      proof (cases "N \<in> set (elems c)")
        case True
        from d c have "distinct (ids c)" by (induction cs) auto
        from this True show ?thesis by (rule Elem.IH [OF c])
      next
        case False
        from other_child [OF d Nc c False] have "ident N \<notin> set (ids c)"
          using Nc elems_is_elem by (auto simp: all_elems_def ids_elem)
        then show ?thesis by (rule put_id)
      qed
    qed
    with j show ?thesis by simp
  qed
qed simp

text \<open>To put a new child in the place of a child is to put the parent with that child.\<close>

lemma put_child:
  assumes "distinct (ids n)" and "Elem i t a (pre @ c # rest) \<in> set (elems n)" and "is_elem c"
  shows "put (ident c) c' n = put i (Elem i t a (pre @ c' # rest)) n"
  using assms(1,2)
proof (induction n)
  case (Elem j tg b ds)
  let ?N = "Elem i t a (pre @ c # rest)"
  let ?n = "Elem j tg b ds"
  from Elem.prems(2) have dN: "distinct (ids ?N)"
    using distinct_sub_elem [of "[?n]" ?N] Elem.prems(1) by (simp add: all_elems_def)
  from assms(3) have ic: "ident c \<in> set (ids c)" by (simp add: ids_elem)
  from dN ic have ne: "i \<noteq> ident c" by auto
  from dN ic have o: "ident c \<notin> set (ids_f pre)" "ident c \<notin> set (ids_f rest)" by auto
  have inner: "put (ident c) c' ?N = Elem i t a (pre @ c' # rest)"
  proof -
    have "map (put (ident c) c') pre = pre" "map (put (ident c) c') rest = rest"
      using o by (auto intro!: map_idI put_id simp: ids_f_set)
    moreover have "put (ident c) c' c = c'" using assms(3) by (cases c) simp_all
    ultimately show ?thesis using ne by simp
  qed
  show ?case
  proof (cases "?N = ?n")
    case True
    with inner show ?thesis by simp
  next
    case False
    with Elem.prems(2) have Nc: "?N \<in> set (all_elems ds)" by (auto simp: all_elems_def)
    then have "i \<in> set (ids_f ds)" using all_elems_ident [OF Nc] by simp
    with Elem.prems(1) have ji: "j \<noteq> i" by auto
    have "ident c \<in> set (ids ?N)" using ic by (auto simp: ids_f_set)
    with all_elems_ids [OF Nc] have "ident c \<in> set (ids_f ds)" by blast
    with Elem.prems(1) have jc: "j \<noteq> ident c" by auto
    from Elem.prems(1) have d: "distinct (ids_f ds)" by simp
    have "put (ident c) c' x = put i (Elem i t a (pre @ c' # rest)) x" if x: "x \<in> set ds" for x
    proof (cases "?N \<in> set (elems x)")
      case True
      from d x have "distinct (ids x)" by (induction ds) auto
      from this True show ?thesis by (rule Elem.IH [OF x])
    next
      case False
      from other_child [OF d Nc x False] have "set (ids ?N) \<inter> set (ids x) = {}" .
      with \<open>ident c \<in> set (ids ?N)\<close> have "ident c \<notin> set (ids x)" "i \<notin> set (ids x)" by auto
      then show ?thesis by (simp add: put_id)
    qed
    with ji jc show ?thesis by simp
  qed
qed simp

lemma fresh_foldl_flattenRow: "fresh st \<le> fresh (foldl (flattenRow w) st rs)"
proof (induction rs arbitrary: st)
  case (Cons r rs)
  from fresh_flattenRow [of st w r] Cons [of "flattenRow w st r"] show ?case by simp
qed simp

lemma fresh_flattenTable: "fresh st \<le> fresh (flattenTable st t)"
proof -
  have "fresh st \<le> fresh (foldl (flattenRow w) (snd (createElement ''p'' st)) rs)" for w rs
    using fresh_foldl_flattenRow [of "snd (createElement ''p'' st)" w rs]
    by (simp add: createElement_def)
  then show ?thesis
    by (simp add: flattenTable_def Let_def split_def split: option.splits)
qed

lemma mask_id: "(\<And>i. i \<in> set (ids n) \<Longrightarrow> i < F) \<Longrightarrow> mask F n = n"
proof (induction n)
  case (Elem j t a cs)
  have "map (mask F) cs = cs"
  proof (rule map_idI)
    fix c assume c: "c \<in> set cs"
    show "mask F c = c"
    proof (rule Elem.IH [OF c])
      fix i assume "i \<in> set (ids c)"
      with c have "i \<in> set (ids (Elem j t a cs))" by (auto simp: ids_f_set)
      then show "i < F" by (rule Elem.prems)
    qed
  qed
  moreover have "j < F" using Elem.prems [of j] by simp
  ultimately show ?case by simp
qed simp

lemma mask_id_f: "(\<And>i. i \<in> set (ids_f f) \<Longrightarrow> i < F) \<Longrightarrow> map (mask F) f = f"
  by (rule map_idI, rule mask_id) (auto simp: ids_f_set)

lemma cell_children_ids:
  assumes t: "twoCols r" and k: "k < 2"
  shows "set (ids_f (childNodes (cells r ! k))) \<subseteq> set (ids r)"
    "set (all_elems (childNodes (cells r ! k))) \<subseteq> set (all_elems (childNodes r))"
proof -
  from t have l: "length (cells r) = 2" by (simp add: twoCols_def cells_def Let_def)
  with k have "cells r ! k \<in> set (cells r)" by simp
  then have c: "cells r ! k \<in> set (childNodes r)" "is_elem (cells r ! k)"
    by (simp_all add: cells_def)
  from child_in_elems [OF c] have e: "cells r ! k \<in> set (all_elems (childNodes r))"
    "cells r ! k \<in> set (elems r)" .
  from e(2) have "set (ids (cells r ! k)) \<subseteq> set (ids r)" by (rule elems_ids_sub)
  with children_ids_sub [of "cells r ! k"]
  show "set (ids_f (childNodes (cells r ! k))) \<subseteq> set (ids r)" by blast
  show "set (all_elems (childNodes (cells r ! k))) \<subseteq> set (all_elems (childNodes r))"
  proof
    fix x assume "x \<in> set (all_elems (childNodes (cells r ! k)))"
    then have "x \<in> set (elems (cells r ! k))" using childNodes_sub by blast
    from this e(1) show "x \<in> set (all_elems (childNodes r))" by (rule all_elems_trans)
  qed
qed

lemma mask_block:
  assumes "F \<le> b1" "F \<le> b2" "\<And>i. i \<in> set (ids_f ms) \<Longrightarrow> i < F"
    "\<And>i. i \<in> set (ids_f cs) \<Longrightarrow> i < F"
  shows "map (mask F) (block idx h b1 b2 ms cs) = block idx h F F ms cs"
  using assms by (simp add: block_def mask_id_f min_absorb2)

lemma mask_emit:
  assumes "F \<le> b" and "\<And>r i. r \<in> snd ` set rs \<Longrightarrow> twoCols r \<and> (i \<in> set (ids r) \<longrightarrow> i < F)"
  shows "map (mask F) (emit b rs) = concat (map (row_block F) rs)"
  using assms
proof (induction rs arbitrary: b)
  case (Cons ir rs)
  from Cons.prems(2) [of "snd ir"] have t: "twoCols (snd ir)"
    and lt: "\<And>i. i \<in> set (ids (snd ir)) \<Longrightarrow> i < F" by simp_all
  have "map (mask F) (block (fst ir) (hasMarker (snd ir)) (b + 2) (b + 3)
       (childNodes (cells (snd ir) ! 0)) (childNodes (cells (snd ir) ! 1))) = row_block F ir"
    unfolding row_block_def
  proof (rule mask_block)
    show "F \<le> b + 2" "F \<le> b + 3" using Cons.prems(1) by simp_all
    fix i
    show "i \<in> set (ids_f (childNodes (cells (snd ir) ! 0))) \<Longrightarrow> i < F"
      using cell_children_ids(1) [OF t, of 0] lt by auto
    show "i \<in> set (ids_f (childNodes (cells (snd ir) ! 1))) \<Longrightarrow> i < F"
      using cell_children_ids(1) [OF t, of 1] lt by auto
  qed
  moreover have "map (mask F) (emit (b + 2 + breaks (fst ir) (hasMarker (snd ir))) rs) =
      concat (map (row_block F) rs)"
    using Cons.prems by (intro Cons.IH) auto
  ultimately show ?case by simp
qed simp

lemma emit_elems:
  assumes "y \<in> set (all_elems (emit b rs))"
  shows "b + 2 \<le> ident y \<or>
     (\<exists>r\<in>snd ` set rs. \<exists>k<2. y \<in> set (all_elems (childNodes (cells r ! k))))"
  using assms
proof (induction rs arbitrary: b)
  case (Cons ir rs)
  let ?B = "block (fst ir) (hasMarker (snd ir)) (b + 2) (b + 3)
       (childNodes (cells (snd ir) ! 0)) (childNodes (cells (snd ir) ! 1))"
  from Cons.prems have "y \<in> set (all_elems ?B) \<or>
      y \<in> set (all_elems (emit (b + 2 + breaks (fst ir) (hasMarker (snd ir))) rs))"
    by (simp add: all_elems_def)
  then show ?case
  proof
    assume "y \<in> set (all_elems ?B)"
    then have "b + 2 \<le> ident y \<or> y \<in> set (all_elems (childNodes (cells (snd ir) ! 0))) \<or>
        y \<in> set (all_elems (childNodes (cells (snd ir) ! 1)))"
      by (auto simp: block_def all_elems_def split: if_splits)
    then consider (a) "b + 2 \<le> ident y"
      | (b) "y \<in> set (all_elems (childNodes (cells (snd ir) ! 0)))"
      | (c) "y \<in> set (all_elems (childNodes (cells (snd ir) ! 1)))" by blast
    then show ?thesis
    proof cases
      case a
      then show ?thesis by simp
    next
      case b
      then show ?thesis by (intro disjI2 bexI [of _ "snd ir"] exI [of _ 0]) simp_all
    next
      case c
      then show ?thesis by (intro disjI2 bexI [of _ "snd ir"] exI [of _ 1]) simp_all
    qed
  next
    assume "y \<in> set (all_elems (emit (b + 2 + breaks (fst ir) (hasMarker (snd ir))) rs))"
    from Cons.IH [OF this] show ?thesis by auto
  qed
qed (simp add: all_elems_def)

lemma okx_sub: "okx F x \<Longrightarrow> c \<in> set (elems x) \<Longrightarrow> okx F c"
proof -
  assume o: "okx F x" and c: "c \<in> set (elems x)"
  from c have "set (ids c) \<subseteq> set (ids x)" by (rule elems_ids_sub)
  moreover have "set (elems c) \<subseteq> set (elems x)" using c elems_trans by blast
  ultimately show ?thesis using o unfolding okx_def list_all_iff by blast
qed

lemma foldl_flattenTable_inv: "store_inv st \<Longrightarrow> store_inv (foldl flattenTable st ts)"
  by (induction ts arbitrary: st) (simp_all add: flattenTable_inv)

lemma fresh_foldl_flattenTable: "fresh st \<le> fresh (foldl flattenTable st ts)"
proof (induction ts arbitrary: st)
  case (Cons t ts)
  from fresh_flattenTable [of st t] Cons [of "flattenTable st t"] show ?case by simp
qed simp

text \<open>Visits that leave the document alone: of detached tables and of tables without rows.\<close>

lemma idle_visits:
  assumes "\<And>j. j \<in> set js \<Longrightarrow>
      j \<notin> set (ids doc) \<or> (\<exists>y\<in>set (elems doc). ident y = j \<and> querySelectorAll ''tr'' y = [])"
  shows "store_inv st \<Longrightarrow> doc_is doc st \<Longrightarrow> doc_is doc (foldl flattenTable st js)"
  using assms
proof (induction js arbitrary: st)
  case (Cons j js)
  have "doc_is doc (flattenTable st j)"
  proof (cases "j \<in> set (ids doc)")
    case False
    with Cons.prems(1,2) show ?thesis by (intro flattenTable_detached)
  next
    case True
    with Cons.prems(3) [of j] obtain y where y: "y \<in> set (elems doc)" "ident y = j"
      "querySelectorAll ''tr'' y = []" by auto
    from Cons.prems(2) obtain g where g: "roots st = doc # g" by (auto simp: doc_is_iff)
    from y(1) have "y \<in> set (all_elems (roots st))" by (simp add: g all_elems_def)
    moreover from Cons.prems(1) have "distinct (ids_f (roots st))" by (simp add: store_inv_def)
    ultimately have "find_node j (roots st) = Some y" using find_unique y(2) by blast
    with y(3) have "flattenTable st j = st" by (intro flattenTable_skip) simp
    with Cons.prems(2) show ?thesis by simp
  qed
  moreover have "store_inv (flattenTable st j)" using Cons.prems(1) by (rule flattenTable_inv)
  ultimately show ?case using Cons.IH Cons.prems(3) by simp
qed simp

lemma child_strict:
  assumes N: "N \<in> set (elems doc)" and c: "c \<in> set (childNodes N)" "is_elem c"
  shows "c \<in> set (all_elems (childNodes doc))"
proof (cases "N = doc")
  case True
  with c show ?thesis by (simp add: child_in_elems(1))
next
  case False
  with N have "N \<in> set (all_elems (childNodes doc))" by (auto simp: elems_split split: if_splits)
  moreover from c have "c \<in> set (elems N)" by (rule child_in_elems(2))
  ultimately show ?thesis by (rule all_elems_trans [rotated])
qed

lemma visit_children:
  assumes IH: "\<And>c st doc g. c \<in> set cs \<Longrightarrow> store_inv st \<Longrightarrow> roots st = doc # g \<Longrightarrow>
      c \<in> set (all_elems (childNodes doc)) \<Longrightarrow> F \<le> fresh st \<Longrightarrow>
      \<exists>c' g'. roots (foldl flattenTable st (tabs c)) = put (ident c) c' doc # g' \<and>
              mask F c' = flat F c"
  shows "set rest \<subseteq> set cs \<Longrightarrow> store_inv st \<Longrightarrow> roots st = doc # g \<Longrightarrow>
     Elem i t a (pre @ rest) \<in> set (elems doc) \<Longrightarrow> F \<le> fresh st \<Longrightarrow>
     \<exists>rest' g'. roots (foldl flattenTable st (concat (map tabs rest))) =
                  put i (Elem i t a (pre @ rest')) doc # g' \<and>
               map (mask F) rest' = map (flat F) rest"
proof (induction rest arbitrary: st doc g pre)
  case Nil
  from Nil.prems(2,3) have "distinct (ids doc)" by (simp add: store_inv_def)
  from put_self [OF this Nil.prems(4)] Nil.prems(3) show ?case by simp
next
  case (Cons c rest)
  let ?N = "Elem i t a (pre @ c # rest)"
  show ?case
  proof (cases c)
    case (Text s)
    from Cons.prems(4) have "Elem i t a ((pre @ [c]) @ rest) \<in> set (elems doc)" by simp
    from Cons.IH [OF _ Cons.prems(2,3) this Cons.prems(5)] Cons.prems(1)
    obtain rest' g' where r: "roots (foldl flattenTable st (concat (map tabs rest))) =
        put i (Elem i t a ((pre @ [c]) @ rest')) doc # g'"
      "map (mask F) rest' = map (flat F) rest" by auto
    have "tabs c = []" using Text by (simp add: tabs_def)
    with r Text show ?thesis
      by (intro exI [of _ "c # rest'"] exI [of _ g']) simp
  next
    case (Elem j tg b ds)
    then have ec: "is_elem c" by simp
    from Cons.prems(2,3) have dd: "distinct (ids doc)" by (simp add: store_inv_def)
    have cin: "c \<in> set (all_elems (childNodes doc))"
      by (rule child_strict [OF Cons.prems(4) _ ec]) simp
    from Cons.prems(1) have "c \<in> set cs" by simp
    from IH [OF this Cons.prems(2,3) cin Cons.prems(5)] obtain c' g1 where
      c': "roots (foldl flattenTable st (tabs c)) = put (ident c) c' doc # g1"
      "mask F c' = flat F c" by blast
    let ?st1 = "foldl flattenTable st (tabs c)"
    let ?N1 = "Elem i t a ((pre @ [c']) @ rest)"
    have i1: "store_inv ?st1" using Cons.prems(2) by (rule foldl_flattenTable_inv)
    have f1: "F \<le> fresh ?st1" using Cons.prems(5) fresh_foldl_flattenTable [of st "tabs c"]
      by simp
    have pc: "put (ident c) c' doc = put i ?N1 doc"
      using put_child [OF dd Cons.prems(4) ec, of c'] by simp
    have "?N1 \<in> set (elems (put i ?N1 doc))"
      by (rule put_in [OF Cons.prems(4)]) simp_all
    from Cons.IH [OF _ i1 c'(1) [unfolded pc] this f1] Cons.prems(1)
    obtain rest' g' where r: "roots (foldl flattenTable ?st1 (concat (map tabs rest))) =
        put i (Elem i t a ((pre @ [c']) @ rest')) (put i ?N1 doc) # g'"
      "map (mask F) rest' = map (flat F) rest" by auto
    have "put i (Elem i t a ((pre @ [c']) @ rest')) (put i ?N1 doc) =
        put i (Elem i t a ((pre @ [c']) @ rest')) doc"
      by (rule put_put) simp_all
    with r c'(2) show ?thesis
      by (intro exI [of _ "c' # rest'"] exI [of _ g']) simp
  qed
qed

lemma inner_rowless:
  assumes t: "twoCols r" and p: "plain_row r" and k: "k < 2"
    and y: "y \<in> set (all_elems (childNodes (cells r ! k)))"
  shows "querySelectorAll ''tr'' y = []"
proof (rule ccontr)
  assume "querySelectorAll ''tr'' y \<noteq> []"
  then obtain z where z: "z \<in> set (querySelectorAll ''tr'' y)" by (cases "querySelectorAll ''tr'' y") auto
  then have "z \<in> set (elems y)" "tag z = ''tr''"
    using childNodes_sub [of y] by (auto simp: qsa_iff)
  moreover from y have "y \<in> set (all_elems (childNodes r))"
    using cell_children_ids(2) [OF t k] by blast
  ultimately have "z \<in> set (querySelectorAll ''tr'' r)"
    using all_elems_trans [of z y "childNodes r"] by (simp add: qsa_iff)
  with p show False by (simp add: plain_row_def)
qed

lemma tabs_Elem:
  "tabs (Elem i t a cs) = (if t = ''table'' then [i] else []) @ concat (map tabs cs)"
  by (simp add: tabs_def [abs_def] filter_concat map_concat comp_def)

lemma tabs_inner: "set (concat (map tabs cs)) \<subseteq> set (ids_f cs)"
  by (auto simp: tabs_def ids_f_def all_elems_def)

lemma visit_subtree:
  "store_inv st \<Longrightarrow> roots st = doc # g \<Longrightarrow> x \<in> set (all_elems (childNodes doc)) \<Longrightarrow>
   okx F x \<Longrightarrow> F \<le> fresh st \<Longrightarrow>
   \<exists>x' g'. roots (foldl flattenTable st (tabs x)) = put (ident x) x' doc # g' \<and>
           mask F x' = flat F x"
proof (induction x arbitrary: st doc g)
  case (Text s)
  from Text.prems(3) obtain n where "Text s \<in> set (elems n)" by (auto simp: all_elems_def)
  then have "is_elem (Text s)" by (rule elems_is_elem)
  then show ?case by simp
next
  case (Elem i t a cs)
  let ?x = "Elem i t a cs"
  from Elem.prems(1) have d: "distinct (ids_f (roots st))"
    and lt: "\<And>j. j \<in> set (ids_f (roots st)) \<Longrightarrow> j < fresh st" by (simp_all add: store_inv_def)
  from d have dd: "distinct (ids doc)" by (simp add: Elem.prems(2))
  from Elem.prems(3) have ed: "is_elem doc" by (cases doc) (simp_all add: all_elems_def)
  from Elem.prems(3) have xd: "?x \<in> set (elems doc)" using childNodes_sub [of doc] by blast
  from Elem.prems(3) have "i \<in> set (ids_f (childNodes doc))" using all_elems_ident by fastforce
  with dd ed have ne: "ident doc \<noteq> i" by (auto simp: ids_elem)
  from Elem.prems(4) have iF: "i < F" by (simp add: okx_def)
  have IH: "\<exists>c' g'. roots (foldl flattenTable st' (tabs c)) = put (ident c) c' doc' # g' \<and>
              mask F c' = flat F c"
    if "c \<in> set cs" "store_inv st'" "roots st' = doc' # g0" "c \<in> set (all_elems (childNodes doc'))"
      "F \<le> fresh st'" for c st' doc' g0
  proof -
    from that(1) have "c \<in> set (elems ?x) \<or> \<not> is_elem c"
      using child_in_elems(2) [of c ?x] by auto
    with that(4) elems_is_elem have "c \<in> set (elems ?x)" by (auto simp: all_elems_def)
    with Elem.prems(4) have "okx F c" by (rule okx_sub)
    from Elem.IH [OF that(1,2,3,4) this that(5)] show ?thesis .
  qed
  show ?case
  proof (cases "t = ''table'' \<and> margin_table ?x")
    case False
    have skip: "foldl flattenTable st (tabs ?x) = foldl flattenTable st (concat (map tabs cs))"
    proof (cases "t = ''table''")
      case True
      with False have "\<not> margin_table ?x" by simp
      moreover from xd have "find_node i (roots st) = Some ?x"
        using find_unique [OF d, of ?x] by (simp add: Elem.prems(2) all_elems_def)
      ultimately have "flattenTable st i = st"
        by (intro flattenTable_skip) (auto simp: margin_table_def)
      with True show ?thesis by (simp add: tabs_Elem)
    next
      case False
      then show ?thesis by (simp add: tabs_Elem)
    qed
    have xd0: "Elem i t a ([] @ cs) \<in> set (elems doc)" using xd by simp
    have "\<exists>rest' g'. roots (foldl flattenTable st (concat (map tabs cs))) =
                  put i (Elem i t a ([] @ rest')) doc # g' \<and>
               map (mask F) rest' = map (flat F) cs"
    proof (rule visit_children [where cs = cs and rest = cs and pre = "[]" and g = g])
      fix c st' doc' g0
      assume "c \<in> set cs" "store_inv st'" "roots st' = doc' # g0"
        "c \<in> set (all_elems (childNodes doc'))" "F \<le> fresh st'"
      then show "\<exists>c' g'. roots (foldl flattenTable st' (tabs c)) = put (ident c) c' doc' # g' \<and>
              mask F c' = flat F c" by (rule IH)
    qed (use Elem.prems(1,2,5) xd0 in simp_all)
    then obtain cs' g' where c: "roots (foldl flattenTable st (concat (map tabs cs))) =
        put i (Elem i t a ([] @ cs')) doc # g'" "map (mask F) cs' = map (flat F) cs" by auto
    from False have "flat F ?x = Elem i t a (map (flat F) cs)" by auto
    with c(2) iF have "mask F (Elem i t a cs') = flat F ?x" by (simp add: min_absorb1)
    with c(1) skip show ?thesis by (intro exI [of _ "Elem i t a cs'"] exI [of _ g']) simp
  next
    case True
    then have tt: "t = ''table''" and m: "margin_table ?x" by blast+
    let ?rows = "querySelectorAll ''tr'' ?x"
    let ?w = "fresh st"
    let ?W = "Elem ?w ''p'' [] (emit (Suc ?w) (enumerate 0 ?rows))"
    let ?doc1 = "put i ?W doc"
    from Elem.prems(4) tt m have p: "list_all plain_row ?rows"
      by (simp add: okx_def)
    from m have tc: "list_all twoCols ?rows" by (simp add: margin_table_def)
    from flattenTable_plain [OF Elem.prems(1,2,3) m p] obtain g1 where
      "roots (flattenTable st i) = repl i ?W doc # g1" by auto
    moreover have rp: "repl i ?W doc = ?doc1" using ne by (intro repl_put) simp
    ultimately have r1: "roots (flattenTable st i) = ?doc1 # g1" by simp
    have i1: "store_inv (flattenTable st i)" using Elem.prems(1) by (rule flattenTable_inv)
    have Win: "?W \<in> set (elems ?doc1)" by (rule put_in [OF xd]) simp_all
    have idle: "j \<notin> set (ids ?doc1) \<or>
        (\<exists>y\<in>set (elems ?doc1). ident y = j \<and> querySelectorAll ''tr'' y = [])"
      if j: "j \<in> set (concat (map tabs cs))" for j
    proof (cases "j \<in> set (ids ?doc1)")
      case False
      then show ?thesis by simp
    next
      case True
      from j tabs_inner have jc: "j \<in> set (ids_f cs)" by blast
      then have jx: "j \<in> set (ids ?x)" by simp
      from all_elems_ids [of ?x "[doc]"] xd jx have "j \<in> set (ids_f (roots st))"
        by (auto simp: Elem.prems(2) all_elems_def)
      from lt [OF this] have jw: "j < ?w" .
      from Elem.prems(3) have "i \<in> set (ids_f (childNodes doc))"
        using all_elems_ident by fastforce
      from repl_mset [OF dd this, of ?W] obtain T' where
        T': "T' \<in> set (all_elems (childNodes doc))" "ident T' = i"
        "mset (ids (repl i ?W doc)) + mset (ids T') = mset (ids doc) + mset (ids ?W)" by blast
      have "distinct (ids_f (childNodes doc))" using dd ed by (simp add: ids_elem)
      from unique_elem [OF this T'(1) Elem.prems(3)] T'(2) have "T' = ?x" by simp
      with T'(3) rp have e: "mset (ids ?doc1) + mset (ids ?x) = mset (ids doc) + mset (ids ?W)"
        by simp
      have "j \<in> set (ids ?W)"
      proof (rule ccontr)
        assume "j \<notin> set (ids ?W)"
        then have "count (mset (ids ?W)) j = 0" by (metis count_mset_0_iff)
        moreover have "count (mset (ids doc)) j \<le> 1"
          using dd by (simp add: distinct_count_atmost_1)
        moreover have "0 < count (mset (ids ?doc1)) j" using True by (rule count_mset_gt_0)
        moreover have "0 < count (mset (ids ?x)) j" using jx by (rule count_mset_gt_0)
        moreover have "count (mset (ids ?doc1) + mset (ids ?x)) j =
            count (mset (ids doc) + mset (ids ?W)) j" by (simp only: e)
        ultimately show False by (simp only: count_union)
      qed
      with jw have "j \<in> set (ids_f (emit (Suc ?w) (enumerate 0 ?rows)))" by simp
      then obtain y where y: "y \<in> set (all_elems (emit (Suc ?w) (enumerate 0 ?rows)))"
        "ident y = j" by (auto simp: ids_f_def)
      from emit_elems [OF y(1)] y(2) jw obtain r k where rk: "r \<in> set ?rows" "k < 2"
        "y \<in> set (all_elems (childNodes (cells r ! k)))" by (auto simp: snd_enumerate)
      from rk(1) tc p have "twoCols r" "plain_row r" by (simp_all add: list_all_iff)
      from inner_rowless [OF this rk(2,3)] have "querySelectorAll ''tr'' y = []" .
      moreover from y(1) have "y \<in> set (elems ?W)" by (simp add: all_elems_def)
      from this Win have "y \<in> set (elems ?doc1)" by (rule elems_trans)
      ultimately show ?thesis using y(2) by blast
    qed
    have dc: "doc_is ?doc1 (flattenTable st i)" by (simp add: doc_is_iff r1)
    have "doc_is ?doc1 (foldl flattenTable (flattenTable st i) (concat (map tabs cs)))"
      by (rule idle_visits [where js = "concat (map tabs cs)", OF idle i1 dc])
    then obtain g' where
      "roots (foldl flattenTable (flattenTable st i) (concat (map tabs cs))) = ?doc1 # g'"
      unfolding doc_is_iff by blast
    then have fin: "roots (foldl flattenTable st (tabs ?x)) = put (ident ?x) ?W doc # g'"
      using tt by (simp add: tabs_Elem)
    have rowok: "twoCols r \<and> (j \<in> set (ids r) \<longrightarrow> j < F)"
      if "r \<in> snd ` set (enumerate 0 ?rows)" for r j
    proof -
      from that have r: "r \<in> set ?rows" by (simp add: snd_enumerate)
      then have "r \<in> set (elems ?x)" using childNodes_sub [of ?x] by (auto simp: qsa_iff)
      then have "set (ids r) \<subseteq> set (ids ?x)" by (rule elems_ids_sub)
      moreover from Elem.prems(4) have "\<forall>j\<in>set (ids ?x). j < F"
        by (simp add: okx_def list_all_iff)
      ultimately show ?thesis using r tc by (auto simp: list_all_iff)
    qed
    have "F \<le> Suc ?w" using Elem.prems(5) by simp
    from mask_emit [OF this rowok]
    have "map (mask F) (emit (Suc ?w) (enumerate 0 ?rows)) =
        concat (map (row_block F) (enumerate 0 ?rows))" by blast
    moreover from True have "flat F ?x = flow_block F ?x" by auto
    ultimately have "mask F ?W = flat F ?x"
      using Elem.prems(5) by (simp add: flow_block_def min_absorb2)
    with fin show ?thesis by blast
  qed
qed

lemma descendants_sub: "set (descendants n) \<subseteq> set (elems n)"
  unfolding descendants_all by (rule childNodes_sub)

lemma qsa_sub: "set (querySelectorAll tg n) \<subseteq> set (elems n)"
  unfolding querySelectorAll_def using descendants_sub [of n] by auto

lemma flatten_no_margin_table:
  assumes d: "distinct (ids root)"
    and n: "\<And>T. T \<in> set (querySelectorAll ''table'' root) \<Longrightarrow> \<not> margin_table T"
  shows "flattenMarginTables root = root"
proof -
  let ?st0 = "\<lparr>roots = [root], fresh = fresh_id root\<rparr>"
  have s: "\<And>T. T \<in> set (querySelectorAll ''table'' root) \<Longrightarrow> flattenTable ?st0 (ident T) = ?st0"
  proof -
    fix T assume T: "T \<in> set (querySelectorAll ''table'' root)"
    then have "T \<in> set (all_elems [root])" using qsa_sub [of "''table''" root]
      by (auto simp: all_elems_def)
    moreover from d have "distinct (ids_f [root])" by simp
    ultimately have "find_node (ident T) (roots ?st0) = Some T" by (simp add: find_unique)
    moreover from n [OF T] have "querySelectorAll ''tr'' T = [] \<or>
        \<not> list_all twoCols (querySelectorAll ''tr'' T)" by (auto simp: margin_table_def)
    ultimately show "flattenTable ?st0 (ident T) = ?st0" by (intro flattenTable_skip) blast
  qed
  have "set ts \<subseteq> set (querySelectorAll ''table'' root) \<Longrightarrow>
      foldl flattenTable ?st0 (map ident ts) = ?st0" for ts
    by (induction ts) (simp_all add: s)
  then have "foldl flattenTable ?st0 (map ident (querySelectorAll ''table'' root)) = ?st0" by simp
  then show ?thesis by (simp add: flattenMarginTables_def Let_def)
qed

lemma fresh_id_bound: "i \<in> set (ids n) \<Longrightarrow> i < fresh_id n"
proof -
  assume "i \<in> set (ids n)"
  then obtain e where e: "e \<in> set (elems n)" "ident e = i" by (auto simp: ids_def)
  from ident_le_foldr [OF e(1)] e(2) show ?thesis by (simp add: fresh_id_def)
qed

lemma store_inv_start: "distinct (ids root) \<Longrightarrow> store_inv \<lparr>roots = [root], fresh = fresh_id root\<rparr>"
  by (simp add: store_inv_def fresh_id_bound)

lemma tables_of_root:
  "map ident (querySelectorAll ''table'' (Elem i t a cs)) = concat (map tabs cs)"
  by (simp add: querySelectorAll_def descendants_def tabs_def [abs_def] filter_concat map_concat
      comp_def)


text \<open>
  The flattener against its specification, on a document whose margin tables have plain rows.
\<close>

lemma flatten_refines:
  assumes d: "distinct (ids root)"
    and p: "list_all (\<lambda>T. margin_table T \<longrightarrow> list_all plain_row (querySelectorAll ''tr'' T))
              (querySelectorAll ''table'' root)"
  shows "mask (fresh_id root) (flattenMarginTables root) = flatten_spec (fresh_id root) root"
proof (cases root)
  case (Text s)
  then show ?thesis
    by (simp add: flattenMarginTables_def flatten_spec_def querySelectorAll_def descendants_def)
next
  case (Elem i t a cs)
  let ?F = "fresh_id root"
  let ?st0 = "\<lparr>roots = [root], fresh = ?F\<rparr>"
  have i0: "store_inv ?st0" using d by (rule store_inv_start)
  have "\<exists>rest' g'. roots (foldl flattenTable ?st0 (concat (map tabs cs))) =
                  put i (Elem i t a ([] @ rest')) root # g' \<and>
               map (mask ?F) rest' = map (flat ?F) cs"
  proof (rule visit_children [where cs = cs and rest = cs and pre = "[]" and g = "[]"])
    fix c st' doc' g0
    assume c: "c \<in> set cs" "store_inv st'" "roots st' = doc' # g0"
      "c \<in> set (all_elems (childNodes doc'))" "?F \<le> fresh st'"
    from c(4) obtain n where "c \<in> set (elems n)" by (auto simp: all_elems_def)
    then have ec: "is_elem c" by (rule elems_is_elem)
    with c(1) have cr: "c \<in> set (all_elems (childNodes root))"
      using child_in_elems(1) [of c root] by (simp add: Elem)
    have "j < ?F" if "j \<in> set (ids c)" for j
    proof -
      from that all_elems_ids [OF cr] children_ids_sub [of root] have "j \<in> set (ids root)"
        by blast
      then show ?thesis by (rule fresh_id_bound)
    qed
    moreover have "list_all plain_row (querySelectorAll ''tr'' T)"
      if T: "T \<in> set (elems c)" "tag T = ''table''" "margin_table T" for T
    proof -
      from T(1) cr have "T \<in> set (all_elems (childNodes root))" by (rule all_elems_trans)
      with T(2) have "T \<in> set (querySelectorAll ''table'' root)" by (simp add: qsa_iff)
      with p T(3) show ?thesis by (simp add: list_all_iff)
    qed
    ultimately have "okx ?F c" unfolding okx_def by (simp add: list_all_iff)
    from visit_subtree [OF c(2,3,4) this c(5)]
    show "\<exists>c' g'. roots (foldl flattenTable st' (tabs c)) = put (ident c) c' doc' # g' \<and>
              mask ?F c' = flat ?F c" .
  qed (use i0 Elem in simp_all)
  then obtain cs' g' where c: "roots (foldl flattenTable ?st0 (concat (map tabs cs))) =
      Elem i t a cs' # g'" "map (mask ?F) cs' = map (flat ?F) cs"
    by (auto simp: Elem)
  have "i < ?F" by (rule fresh_id_bound) (simp add: Elem)
  have tb: "map ident (querySelectorAll ''table'' root) = concat (map tabs cs)"
    using tables_of_root [of i t a cs] by (simp only: Elem)
  have "flattenMarginTables root = Elem i t a cs'"
    unfolding flattenMarginTables_def Let_def tb c(1) by simp
  moreover have "flatten_spec ?F root = Elem i t a (map (flat ?F) cs)"
    by (simp add: flatten_spec_def Elem)
  ultimately show ?thesis using c(2) \<open>i < ?F\<close> by (simp add: min_absorb1)
qed








section \<open>Properties of the chapter pipeline\<close>

lemma map_of_setAttribute:
  "map_of (setAttribute k v a) k' = (if k' = k then Some v else map_of a k')"
proof (cases "k \<in> set (map fst a)")
  case True
  have o: "k' \<noteq> k \<Longrightarrow>
      map_of (map (\<lambda>kv. if fst kv = k then (k, v) else kv) a) k' = map_of a k'"
    by (induction a) auto
  from True have "map_of (map (\<lambda>kv. if fst kv = k then (k, v) else kv) a) k = Some v"
    by (induction a) auto
  with o True show ?thesis by (simp add: setAttribute_def)
next
  case False
  then have "map_of a k = None" by (simp add: map_of_eq_None_iff)
  with False show ?thesis by (auto simp: setAttribute_def map_add_def split: option.splits)
qed

lemma map_of_removeAttribute:
  "map_of (removeAttribute k a) k' = (if k' = k then None else map_of a k')"
  unfolding removeAttribute_def by (induction a) auto

lemma fixImage_style:
  assumes u: "unstyled (tag e) (attrs e)"
  shows "tag e \<noteq> ''style'' \<and> tag e \<noteq> ''link'' \<and>
     (''style'' \<in> set (map fst (fixImage resolve restyle url e)) \<longrightarrow>
        tag e = ''img'' \<and>
        map_of (fixImage resolve restyle url e) ''style'' = Some (restyle None) \<and>
        (\<exists>src. src \<noteq> [] \<and>
           map_of (fixImage resolve restyle url e) ''src'' = Some (absolute_src resolve url src)))"
proof -
  from u have t: "tag e \<noteq> ''style''" "tag e \<noteq> ''link''" and n: "''style'' \<notin> fst ` set (attrs e)"
    by (simp_all add: unstyled_def)
  from n have m: "map_of (attrs e) ''style'' = None" by (simp add: map_of_eq_None_iff)
  show ?thesis
  proof (cases "tag e = ''img'' \<and> hasAttribute ''src'' e \<and>
      (\<exists>src. getAttribute ''src'' e = Some src \<and> src \<noteq> [])")
    case False
    then have "fixImage resolve restyle url e = attrs e"
      by (auto simp: fixImage_def split: option.splits)
    with t n show ?thesis by simp
  next
    case True
    then obtain src where s: "tag e = ''img''" "hasAttribute ''src'' e"
      "map_of (attrs e) ''src'' = Some src" "src \<noteq> []"
      by (auto simp: getAttribute_def)
    let ?a1 = "if \<not> is_http src
               then (case resolve src url of
                       Some u \<Rightarrow> setAttribute ''src'' u (attrs e)
                     | None \<Rightarrow> attrs e)
               else attrs e"
    let ?a2 = "removeAttribute ''height'' (removeAttribute ''width'' ?a1)"
    have f: "fixImage resolve restyle url e =
        setAttribute ''style'' (restyle (map_of ?a2 ''style'')) ?a2"
      using s by (simp add: fixImage_def getAttribute_def Let_def)
    have 1: "map_of ?a1 ''style'' = None" using m
      by (simp add: map_of_setAttribute split: option.splits)
    have 2: "map_of ?a1 ''src'' = Some (absolute_src resolve url src)"
      using s(3) by (simp add: map_of_setAttribute absolute_src_def split: option.splits)
    have 3: "map_of ?a2 ''style'' = None" using 1 by (simp add: map_of_removeAttribute)
    have 4: "map_of ?a2 ''src'' = Some (absolute_src resolve url src)"
      using 2 by (simp add: map_of_removeAttribute)
    have "map_of (fixImage resolve restyle url e) ''style'' = Some (restyle None)"
      unfolding f 3 by (simp add: map_of_setAttribute)
    moreover have "map_of (fixImage resolve restyle url e) ''src'' =
        Some (absolute_src resolve url src)"
      unfolding f using 4 by (simp add: map_of_setAttribute)
    ultimately show ?thesis using t s(1,4) by blast
  qed
qed

text \<open>What is written outside template contents is written from an element of the tree.\<close>

lemma outside_serialize:
  "set (outside_templates (serialize content n)) \<subseteq> (\<lambda>e. (tag e, attrs e)) ` set (elems n)"
proof (induction n)
  case (Text s)
  show ?case by simp
next
  case (Elem i t a cs)
  show ?case
  proof (cases "t = ''template''")
    case True
    then show ?thesis by simp
  next
    case False
    have "set (concat (map outside_templates (map (serialize content) cs))) \<subseteq>
        (\<lambda>e. (tag e, attrs e)) ` set (concat (map elems cs))"
      using Elem.IH by fastforce
    with False show ?thesis by auto
  qed
qed

lemma outside_innerHTML:
  assumes "every_elem q (childNodes n)"
  shows "list_all (\<lambda>ta. q (fst ta) (snd ta))
     (concat (map outside_templates (innerHTML content n)))"
proof (cases n)
  case (Text s)
  then show ?thesis by (simp add: innerHTML_def)
next
  case (Elem i t a cs)
  show ?thesis
  proof (cases "t = ''template''")
    case True
    with Elem show ?thesis by (simp add: innerHTML_def)
  next
    case False
    have "q (fst ta) (snd ta)"
      if "ta \<in> set (concat (map outside_templates (map (serialize content) cs)))" for ta
    proof -
      from that obtain c where c: "c \<in> set cs" "ta \<in> set (outside_templates (serialize content c))"
        by auto
      with outside_serialize [of content c] obtain e where
        e: "e \<in> set (elems c)" "ta = (tag e, attrs e)" by auto
      from c(1) e(1) have "e \<in> set (all_elems cs)" by (auto simp: all_elems_def)
      with assms Elem show ?thesis by (simp add: every_elem_def list_all_iff e(2))
    qed
    with Elem False show ?thesis by (simp add: innerHTML_def list_all_iff)
  qed
qed

text \<open>
  Claim C2, amended. For every input document, a fragment produced by the chapter pipeline
  (Cleaner, line-break removal, Flattener, Image Normalizer) has, outside the contents of
  template elements, no \<open>style\<close> element and no \<open>link\<close> element, and the only elements
  there that carry a \<open>style\<close> attribute are \<open>img\<close> elements that had a \<open>src\<close> attribute
  that was not empty: their \<open>style\<close> is the one the Image Normalizer sets on an image
  without one, their \<open>src\<close> is the former one made absolute.
\<close>

theorem normalized_fragment_styles:
  "list_all (\<lambda>ta. fst ta \<noteq> ''style'' \<and> fst ta \<noteq> ''link'' \<and>
               (''style'' \<in> set (map fst (snd ta)) \<longrightarrow>
                  fst ta = ''img'' \<and> map_of (snd ta) ''style'' = Some (restyle None) \<and>
                  (\<exists>src. src \<noteq> [] \<and>
                     map_of (snd ta) ''src'' = Some (absolute_src resolve url src))))
     (concat (map outside_templates (normalize_root resolve restyle content root url)))"
proof -
  let ?q = "\<lambda>t a. t \<noteq> ''style'' \<and> t \<noteq> ''link'' \<and>
      (''style'' \<in> set (map fst a) \<longrightarrow>
         t = ''img'' \<and> map_of a ''style'' = Some (restyle None) \<and>
         (\<exists>src. src \<noteq> [] \<and> map_of a ''src'' = Some (absolute_src resolve url src)))"
  have 1: "every_elem unstyled (childNodes (stripLegacyStyling root))"
    by (rule stripLegacyStyling_unstyled)
  then have 2: "every_elem unstyled (childNodes (stripLineBreaks (stripLegacyStyling root)))"
    unfolding stripLineBreaks_def by (rule every_elem_remove_children)
  then have 3: "every_elem unstyled
      (childNodes (flattenMarginTables (stripLineBreaks (stripLegacyStyling root))))"
    by (rule store_ok_flatten) (simp_all add: unstyled_def)
  have "every_elem ?q (childNodes (fixImages resolve restyle
      (flattenMarginTables (stripLineBreaks (stripLegacyStyling root))) url))"
    unfolding fixImages_def
    by (rule every_elem_on_descendants [OF _ 3]) (rule fixImage_style)
  from outside_innerHTML [OF this, of content] show ?thesis
    by (simp add: normalize_root_def)
qed

theorem normalized_fragment_styles_witness:
  "list_all (\<lambda>ta. fst ta \<noteq> ''style'' \<and> fst ta \<noteq> ''link'' \<and>
               (''style'' \<in> set (map fst (snd ta)) \<longrightarrow>
                  fst ta = ''img'' \<and> map_of (snd ta) ''style'' = Some responsive_style \<and>
                  (\<exists>src. src \<noteq> [] \<and>
                     map_of (snd ta) ''src'' =
                       Some (absolute_src (\<lambda>src base. None)
                               ''https://www.ada.auckland.ac.nz/ada11.htm'' src))))
     (concat (map outside_templates
        (normalize_root (\<lambda>src base. None) (\<lambda>old. responsive_style) template_content
           page_with_image ''https://www.ada.auckland.ac.nz/ada11.htm''))) \<and>
   (''img'', [(''src'', ''https://www.ada.auckland.ac.nz/ada.jpg''), (''style'', responsive_style)])
     \<in> set (concat (map outside_templates
        (normalize_root (\<lambda>src base. None) (\<lambda>old. responsive_style) template_content
           page_with_image ''https://www.ada.auckland.ac.nz/ada11.htm'')))"
proof -
  have "normalize_root (\<lambda>src base. None) (\<lambda>old. responsive_style) template_content
      page_with_image ''https://www.ada.auckland.ac.nz/ada11.htm'' =
    [MElem ''p'' []
      [MText ''Ada'',
       MElem ''img'' [(''src'', ''https://www.ada.auckland.ac.nz/ada.jpg''),
                      (''style'', responsive_style)] []]]"
    by code_simp
  then have "(''img'', [(''src'', ''https://www.ada.auckland.ac.nz/ada.jpg''),
        (''style'', responsive_style)])
     \<in> set (concat (map outside_templates
        (normalize_root (\<lambda>src base. None) (\<lambda>old. responsive_style) template_content
           page_with_image ''https://www.ada.auckland.ac.nz/ada11.htm'')))"
    by simp
  with normalized_fragment_styles [of "\<lambda>old. responsive_style" "\<lambda>src base. None"
      "''https://www.ada.auckland.ac.nz/ada11.htm''" template_content page_with_image]
  show ?thesis by blast
qed

text \<open>
  Two fragments with styling left in them. The Image Normalizer, last in the pipeline, leaves a
  \<open>style\<close> attribute on the image of a page. The Cleaner does not reach the contents of a
  template, and the fragment is written with the \<open>style\<close> element and the \<open>style\<close>
  attribute they hold.
\<close>

theorem normalized_fragment_styled:
  "normalize_root (\<lambda>src base. None) (\<lambda>old. responsive_style) template_content page_with_image
     ''https://www.ada.auckland.ac.nz/ada11.htm'' =
   [MElem ''p'' []
      [MText ''Ada'',
       MElem ''img'' [(''src'', ''https://www.ada.auckland.ac.nz/ada.jpg''),
                      (''style'', responsive_style)] []]] \<and>
   normalize_root (\<lambda>src base. None) (\<lambda>old. responsive_style) template_content page_with_template
     ''https://www.ada.auckland.ac.nz/ada11.htm'' =
   [MElem ''template'' []
      [MContents [MElem ''style'' [] [MText ''a{}''],
                  MElem ''p'' [(''style'', ''color:red'')] [MText ''x'']]],
    MElem ''p'' [] [MText ''y'']] \<and>
   (''style'', []) \<in> set (concat (map written
      (normalize_root (\<lambda>src base. None) (\<lambda>old. responsive_style) template_content
         page_with_template ''https://www.ada.auckland.ac.nz/ada11.htm''))) \<and>
   (''p'', [(''style'', ''color:red'')]) \<in> set (concat (map written
      (normalize_root (\<lambda>src base. None) (\<lambda>old. responsive_style) template_content
         page_with_template ''https://www.ada.auckland.ac.nz/ada11.htm'')))"
proof -
  have 1: "normalize_root (\<lambda>src base. None) (\<lambda>old. responsive_style) template_content
      page_with_image ''https://www.ada.auckland.ac.nz/ada11.htm'' =
    [MElem ''p'' []
      [MText ''Ada'',
       MElem ''img'' [(''src'', ''https://www.ada.auckland.ac.nz/ada.jpg''),
                      (''style'', responsive_style)] []]]"
    by code_simp
  have 2: "normalize_root (\<lambda>src base. None) (\<lambda>old. responsive_style) template_content
      page_with_template ''https://www.ada.auckland.ac.nz/ada11.htm'' =
    [MElem ''template'' []
      [MContents [MElem ''style'' [] [MText ''a{}''],
                  MElem ''p'' [(''style'', ''color:red'')] [MText ''x'']]],
     MElem ''p'' [] [MText ''y'']]"
    by code_simp
  show ?thesis unfolding 1 2 by simp
qed

section \<open>Properties of the flattener\<close>

text \<open>
  Claim C1 at a margin table with a table inside its marker cell. The row loop takes
  \<open>tr.querySelectorAll('td')\<close>, the cells among all descendants of the row, where the test
  before it took \<open>tr.children\<close>: the content cell it reads is the first cell of the inner table,
  and what the second cell of the row holds (\<open>c\<close>) is not in the block, nor anywhere in
  the document.
\<close>

theorem flatten_nested_marker_cell:
  "flattenMarginTables nested_margin_table =
     Elem 0 ''div'' []
       [Elem 9 ''p'' []
          [Text ''1.2'', Elem 15 ''p'' [] [], Elem 12 ''br'' [] [], Text ''a'', Text '' '',
           Text ''b'']]"
proof -
  let ?st0 = "\<lparr>roots = [nested_margin_table], fresh = 9\<rparr>"
  let ?A = "snd (createElement ''p'' ?st0)"
  let ?B = "row_moves 9 0 3 6 True ?A"
  let ?C = "row_moves 9 1 6 7 False ?B"
  let ?D = "replaceWith 1 9 ?C"
  let ?E = "snd (createElement ''p'' ?D)"
  let ?F = "row_moves 15 0 6 7 False ?E"
  let ?G = "replaceWith 4 15 ?F"
  have tabs: "map ident (querySelectorAll ''table'' nested_margin_table) = [1, 4]" by code_simp
  have fr: "fresh_id nested_margin_table = 9" by code_simp
  have r1: "flattenRow 9 ?A (0, 2) = ?B" by (rule flattenRow_eval; code_simp)
  have r2: "flattenRow 9 ?B (1, 5) = ?C" by (rule flattenRow_eval; code_simp)
  have t1: "flattenTable ?st0 1 = replaceWith (1::nat) (fresh ?st0)
       (foldl (flattenRow (fresh ?st0)) (snd (createElement ''p'' ?st0)) (enumerate 0 [2, 5]))"
    by (rule flattenTable_eval; code_simp)
  have t1': "flattenTable ?st0 1 = ?D" unfolding t1 using r1 r2 by simp
  have fd: "fresh ?D = 15" by code_simp
  have r3: "flattenRow 15 ?E (0, 5) = ?F" by (rule flattenRow_eval; code_simp)
  have t2: "flattenTable ?D 4 = replaceWith (4::nat) (fresh ?D)
       (foldl (flattenRow (fresh ?D)) (snd (createElement ''p'' ?D)) (enumerate 0 [5]))"
    by (rule flattenTable_eval; code_simp)
  have t2': "flattenTable ?D 4 = ?G" unfolding t2 fd using r3 by simp
  have g: "roots ?G =
     [Elem 0 ''div'' []
       [Elem 9 ''p'' []
          [Text ''1.2'', Elem 15 ''p'' [] [], Elem 12 ''br'' [] [], Text ''a'', Text '' '',
           Text ''b'']],
      Elem 10 ''#document-fragment'' [] [], Elem 11 ''#document-fragment'' [] [],
      Elem 13 ''#document-fragment'' [] [], Elem 14 ''#document-fragment'' [] [],
      Elem 1 ''table'' [] [Elem 2 ''tr'' [] [Elem 3 ''td'' [] [], Elem 8 ''td'' [] [Text ''c'']]],
      Elem 16 ''#document-fragment'' [] [], Elem 17 ''#document-fragment'' [] [],
      Elem 4 ''table'' [] [Elem 5 ''tr'' [] [Elem 6 ''td'' [] [], Elem 7 ''td'' [] []]]]"
    by code_simp
  show ?thesis
    unfolding flattenMarginTables_def Let_def tabs fr
    by (simp only: foldl_Cons foldl_Nil t1' t2' g list.case)
qed

section \<open>Detection of margin tables\<close>

lemma flattenTable_skip_eval:
  assumes "find_node t (roots st) \<noteq> None"
    and "\<not> margin_table (the (find_node t (roots st)))"
  shows "flattenTable st t = st"
  using assms by (intro flattenTable_skip) (auto simp: margin_table_def)

text \<open>The flattener on a margin table whose marker cell holds a table with its row in a cell.\<close>

lemma row_in_cell_flattened:
  "flattenMarginTables row_in_cell_page =
     Elem 0 ''div'' []
       [Elem 10 ''p'' []
          [Elem 4 ''table'' [] [Elem 5 ''td'' [] []],
           Elem 13 ''br'' [] [],
           Elem 6 ''tr'' [] [Elem 7 ''td'' [] [], Elem 8 ''td'' [] []],
           Elem 16 ''br'' [] [], Text ''x'', Elem 17 ''br'' [] [], Text ''y'']]"
proof -
  let ?st0 = "\<lparr>roots = [row_in_cell_page], fresh = 10\<rparr>"
  let ?A = "snd (createElement ''p'' ?st0)"
  let ?B = "row_moves 10 0 3 5 True ?A"
  let ?C = "row_moves 10 1 7 8 True ?B"
  let ?D = "replaceWith 1 10 ?C"
  let ?out = "Elem 0 ''div'' []
       [Elem 10 ''p'' []
          [Elem 4 ''table'' [] [Elem 5 ''td'' [] []],
           Elem 13 ''br'' [] [],
           Elem 6 ''tr'' [] [Elem 7 ''td'' [] [], Elem 8 ''td'' [] []],
           Elem 16 ''br'' [] [], Text ''x'', Elem 17 ''br'' [] [], Text ''y'']]"
  have tabs: "map ident (querySelectorAll ''table'' row_in_cell_page) = [1, 4]" by code_simp
  have fr: "fresh_id row_in_cell_page = 10" by code_simp
  have r1: "flattenRow 10 ?A (0, 2) = ?B" by (rule flattenRow_eval; code_simp)
  have r2: "flattenRow 10 ?B (1, 6) = ?C" by (rule flattenRow_eval; code_simp)
  have t1: "flattenTable ?st0 1 = replaceWith (1::nat) (fresh ?st0)
       (foldl (flattenRow (fresh ?st0)) (snd (createElement ''p'' ?st0)) (enumerate 0 [2, 6]))"
    by (rule flattenTable_eval; code_simp)
  have t1': "flattenTable ?st0 1 = ?D" unfolding t1 using r1 r2 by simp
  have t2: "flattenTable ?D 4 = ?D" by (rule flattenTable_skip_eval; code_simp)
  have g: "hd (roots ?D) = ?out \<and> roots ?D \<noteq> []" by code_simp
  from g obtain rs where rs: "roots ?D = ?out # rs" by (cases "roots ?D") auto
  show ?thesis
    unfolding flattenMarginTables_def Let_def tabs fr
    by (simp only: foldl_Cons foldl_Nil t1' t2 rs list.case)
qed

text \<open>
  Claim C3, amended. The identities of a tree are those of its nodes, each node once. A margin
  table is a table with at least one row (a \<open>tr\<close> below it) whose rows all have exactly two
  element children, both \<open>td\<close>. Where the rows of the margin tables are plain (their cells
  hold no further \<open>td\<close> or \<open>tr\<close>), the flattener rewrites exactly the margin tables: the
  document it leaves is the one of the specification, where a margin table has given its place
  to the flowing block of its rows and every other table is in its place, the same node with the
  same attributes, its children changed only where a margin table among them is rewritten. A
  document without margin table is left as it is: same nodes, same rows, same cells, same
  children.
\<close>

theorem flatten_margin_detection:
  assumes "distinct (ids root)"
  shows "(list_all (\<lambda>T. margin_table T \<longrightarrow> list_all plain_row (querySelectorAll ''tr'' T))
            (querySelectorAll ''table'' root) \<longrightarrow>
          mask (fresh_id root) (flattenMarginTables root) = flatten_spec (fresh_id root) root) \<and>
         (list_all (\<lambda>T. \<not> margin_table T) (querySelectorAll ''table'' root) \<longrightarrow>
          flattenMarginTables root = root)"
proof (intro conjI impI)
  assume "list_all (\<lambda>T. margin_table T \<longrightarrow> list_all plain_row (querySelectorAll ''tr'' T))
            (querySelectorAll ''table'' root)"
  with assms show "mask (fresh_id root) (flattenMarginTables root) =
      flatten_spec (fresh_id root) root" by (rule flatten_refines)
next
  assume "list_all (\<lambda>T. \<not> margin_table T) (querySelectorAll ''table'' root)"
  then have "\<And>T. T \<in> set (querySelectorAll ''table'' root) \<Longrightarrow> \<not> margin_table T"
    by (simp add: list_all_iff)
  with assms show "flattenMarginTables root = root" by (rule flatten_no_margin_table)
qed

theorem flatten_margin_detection_witness:
  "distinct (ids table_in_single_cell) \<and>
   list_all (\<lambda>T. margin_table T \<longrightarrow> list_all plain_row (querySelectorAll ''tr'' T))
     (querySelectorAll ''table'' table_in_single_cell) \<and>
   mask (fresh_id table_in_single_cell) (flattenMarginTables table_in_single_cell) =
     Elem 0 ''div'' []
       [Elem 1 ''table'' []
          [Elem 2 ''tr'' []
             [Elem 3 ''td'' []
                [Elem 8 ''p'' [] [Text ''a'', Elem 8 ''br'' [] [], Text ''z'']]]]] \<and>
   distinct (ids empty_table_page) \<and>
   list_all (\<lambda>T. \<not> margin_table T) (querySelectorAll ''table'' empty_table_page) \<and>
   flattenMarginTables empty_table_page = empty_table_page"
proof -
  have d: "distinct (ids table_in_single_cell)" by code_simp
  have p: "list_all (\<lambda>T. margin_table T \<longrightarrow> list_all plain_row (querySelectorAll ''tr'' T))
     (querySelectorAll ''table'' table_in_single_cell)" by code_simp
  have s: "flatten_spec (fresh_id table_in_single_cell) table_in_single_cell =
     Elem 0 ''div'' []
       [Elem 1 ''table'' []
          [Elem 2 ''tr'' []
             [Elem 3 ''td'' []
                [Elem 8 ''p'' [] [Text ''a'', Elem 8 ''br'' [] [], Text ''z'']]]]]" by code_simp
  have d0: "distinct (ids empty_table_page)" by code_simp
  have n0: "list_all (\<lambda>T. \<not> margin_table T) (querySelectorAll ''table'' empty_table_page)"
    by code_simp
  from flatten_margin_detection [OF d] p s
  have "mask (fresh_id table_in_single_cell) (flattenMarginTables table_in_single_cell) =
     Elem 0 ''div'' []
       [Elem 1 ''table'' []
          [Elem 2 ''tr'' []
             [Elem 3 ''td'' []
                [Elem 8 ''p'' [] [Text ''a'', Elem 8 ''br'' [] [], Text ''z'']]]]]" by simp
  moreover from flatten_margin_detection [OF d0] n0
  have "flattenMarginTables empty_table_page = empty_table_page" by blast
  ultimately show ?thesis using d p d0 n0 by blast
qed

text \<open>
  Three tables against the claim as it was. Every row of a table without rows has two cells, and
  the flattener leaves the table. The one row of the outer table of the second page has one
  cell, and the flattener changes what the table holds: the margin table in that cell gives
  its place to a flowing block. The inner table of the third page has one row, of two cells,
  and the flattener leaves the table: when it comes to it, the row loop of the outer table has
  taken its row away, the cell that held the row being among the cells
  \<open>tr.querySelectorAll('td')\<close> selects for the outer row.
\<close>

theorem flatten_detection_exceptions:
  "list_all twoCols (querySelectorAll ''tr'' (Elem 1 ''table'' [] [])) \<and>
   flattenMarginTables empty_table_page = Elem 0 ''div'' [] [Elem 1 ''table'' [] []] \<and>
   \<not> list_all twoCols (querySelectorAll ''tr'' (hd (querySelectorAll ''table'' table_in_single_cell))) \<and>
   flattenMarginTables table_in_single_cell =
     Elem 0 ''div'' []
       [Elem 1 ''table'' []
          [Elem 2 ''tr'' []
             [Elem 3 ''td'' []
                [Elem 8 ''p'' [] [Text ''a'', Elem 11 ''br'' [] [], Text ''z'']]]]] \<and>
   list_all (\<lambda>T. querySelectorAll ''tr'' T \<noteq> [] \<and> list_all twoCols (querySelectorAll ''tr'' T))
     (querySelectorAll ''table'' row_in_cell_page) \<and>
   map ident (querySelectorAll ''table'' row_in_cell_page) = [1, 4] \<and>
   map ident (querySelectorAll ''table'' (flattenMarginTables row_in_cell_page)) = [4]"
proof -
  let ?st0 = "\<lparr>roots = [table_in_single_cell], fresh = 8\<rparr>"
  let ?A = "snd (createElement ''p'' ?st0)"
  let ?B = "row_moves 8 0 6 7 True ?A"
  let ?G = "replaceWith 4 8 ?B"
  have e: "flattenMarginTables empty_table_page = Elem 0 ''div'' [] [Elem 1 ''table'' [] []]"
    by code_simp
  have v: "list_all twoCols (querySelectorAll ''tr'' (Elem 1 ''table'' [] []))" by code_simp
  have n: "\<not> list_all twoCols
      (querySelectorAll ''tr'' (hd (querySelectorAll ''table'' table_in_single_cell)))"
    by code_simp
  have tabs: "map ident (querySelectorAll ''table'' table_in_single_cell) = [1, 4]" by code_simp
  have fr: "fresh_id table_in_single_cell = 8" by code_simp
  have t1: "flattenTable ?st0 1 = ?st0" by (rule flattenTable_skip_eval; code_simp)
  have r1: "flattenRow 8 ?A (0, 5) = ?B" by (rule flattenRow_eval; code_simp)
  have t2: "flattenTable ?st0 4 = replaceWith (4::nat) (fresh ?st0)
       (foldl (flattenRow (fresh ?st0)) (snd (createElement ''p'' ?st0)) (enumerate 0 [5]))"
    by (rule flattenTable_eval; code_simp)
  have t2': "flattenTable ?st0 4 = ?G" unfolding t2 using r1 by simp
  have g: "roots ?G =
     [Elem 0 ''div'' []
       [Elem 1 ''table'' []
          [Elem 2 ''tr'' []
             [Elem 3 ''td'' []
                [Elem 8 ''p'' [] [Text ''a'', Elem 11 ''br'' [] [], Text ''z'']]]]],
      Elem 9 ''#document-fragment'' [] [], Elem 10 ''#document-fragment'' [] [],
      Elem 4 ''table'' [] [Elem 5 ''tr'' [] [Elem 6 ''td'' [] [], Elem 7 ''td'' [] []]]]"
    by code_simp
  have "flattenMarginTables table_in_single_cell =
     Elem 0 ''div'' []
       [Elem 1 ''table'' []
          [Elem 2 ''tr'' []
             [Elem 3 ''td'' []
                [Elem 8 ''p'' [] [Text ''a'', Elem 11 ''br'' [] [], Text ''z'']]]]]"
    unfolding flattenMarginTables_def Let_def tabs fr
    by (simp only: foldl_Cons foldl_Nil t1 t2' g list.case)
  moreover have "list_all (\<lambda>T. querySelectorAll ''tr'' T \<noteq> [] \<and>
        list_all twoCols (querySelectorAll ''tr'' T)) (querySelectorAll ''table'' row_in_cell_page)"
    by code_simp
  moreover have "map ident (querySelectorAll ''table'' row_in_cell_page) = [1, 4]" by code_simp
  moreover have "map ident (querySelectorAll ''table'' (flattenMarginTables row_in_cell_page)) = [4]"
    unfolding row_in_cell_flattened by code_simp
  ultimately show ?thesis using e v n by blast
qed

section \<open>Flattening twice\<close>




end
